theory Spec2Isabelle
  imports Main "HOL-Library.Word"
begin

unbundle bit_operations_syntax

section \<open>Bytes, decimal text and the integer limits of the platform\<close>

text \<open>
  Go strings and byte slices are sequences of bytes; both are modelled as \<open>string\<close>
  (a list of 8-bit characters), and \<open>length\<close> is Go's \<open>len\<close>.  The platform is taken to be
  a 64-bit one: \<open>int\<close> is a 64-bit two's complement integer.
\<close>

definition LF :: char where
  "LF = CHR 0x0A"

definition CR :: char where
  "CR = CHR 0x0D"

definition max_int :: nat where
  "max_int = 9223372036854775807"

definition digit_char :: "nat \<Rightarrow> char" where
  "digit_char d = ''0123456789'' ! d"

function nat_dec :: "nat \<Rightarrow> string" where
  "nat_dec n = (if n < 10 then [digit_char n] else nat_dec (n div 10) @ [digit_char (n mod 10)])"
  by pat_completeness auto
termination
  by (relation "measure (\<lambda>n. n)") auto

declare nat_dec.simps [simp del]

text \<open>\<open>strconv.Itoa\<close>, and \<open>fmt.Sprintf("%d", _)\<close> on any of the integer types.\<close>

definition Itoa :: "int \<Rightarrow> string" where
  "Itoa i = (if i < 0 then CHR ''-'' # nat_dec (nat (- i)) else nat_dec (nat i))"

definition is_digit :: "char \<Rightarrow> bool" where
  "is_digit c = (48 \<le> (of_char c :: nat) \<and> (of_char c :: nat) \<le> 57)"

definition digits_val :: "string \<Rightarrow> nat" where
  "digits_val ds = foldl (\<lambda>n c. n * 10 + ((of_char c :: nat) - 48)) 0 ds"

text \<open>
  \<open>strconv.Atoi\<close>: an optional sign, then at least one decimal digit and nothing else;
  the value has to fit a 64-bit \<open>int\<close>.  \<open>None\<close> is the returned error.
\<close>

definition Atoi :: "string \<Rightarrow> int option" where
  "Atoi s =
     (let neg = (s \<noteq> [] \<and> hd s = CHR ''-'');
          ds = (if s \<noteq> [] \<and> (hd s = CHR ''-'' \<or> hd s = CHR ''+'') then tl s else s)
      in if ds = [] \<or> \<not> list_all is_digit ds then None
         else if neg then (if digits_val ds > max_int + 1 then None else Some (- int (digits_val ds)))
         else (if digits_val ds > max_int then None else Some (int (digits_val ds))))"

text \<open>\<open>bytes.IndexByte\<close>; \<open>None\<close> is the result \<open>-1\<close>.\<close>

fun IndexByte :: "string \<Rightarrow> char \<Rightarrow> nat option" where
  "IndexByte [] c = None"
| "IndexByte (x # xs) c = (if x = c then Some 0 else map_option Suc (IndexByte xs c))"

lemma IndexByte_less: "IndexByte xs c = Some i \<Longrightarrow> i < length xs"
  by (induction xs arbitrary: i) (auto split: if_splits)


section \<open>The frame decoder: \<open>Client.parse\<close>\<close>

text \<open>
  \<open>parse\<close> returns a \<open>[]string\<close> that is \<open>nil\<close> (a length line that is no non-negative
  integer), empty but not \<open>nil\<close> (no complete frame yet) or the fields of one frame.  The
  slice is modelled as \<open>string list option\<close> with \<open>None\<close> for \<open>nil\<close>.  The second component
  is the receive buffer after the call: only \<open>c.recv_buf.Next(offset)\<close> changes it.

  \<open>offset + size\<close> is a 64-bit addition.  When the sum exceeds the largest \<open>int\<close> it wraps
  to a negative number, the guard \<open>offset+size >= c.recv_buf.Len()\<close> is false and the slice
  expression \<open>buf[offset : offset+size]\<close> panics.
\<close>

datatype parse_result = ParsePanic | Parsed "string list option" string

function parse_loop :: "string \<Rightarrow> nat \<Rightarrow> string list \<Rightarrow> parse_result" where
  "parse_loop buf offset resp =
     (case IndexByte (drop offset buf) LF of
        None \<Rightarrow> Parsed (Some []) buf
      | Some idx \<Rightarrow>
          let p = take idx (drop offset buf);
              offset' = offset + idx + 1
          in if p = [] \<or> p = [CR] then
               (if resp = [] then parse_loop buf offset' resp
                else Parsed (Some resp) (drop offset' buf))
             else
               (case Atoi p of
                  None \<Rightarrow> Parsed None buf
                | Some sz \<Rightarrow>
                    if sz < 0 then Parsed None buf
                    else if offset' + nat sz > max_int then ParsePanic
                    else if offset' + nat sz \<ge> length buf then Parsed (Some []) buf
                    else parse_loop buf (offset' + nat sz + 1)
                           (resp @ [take (nat sz) (drop offset' buf)])))"
  by pat_completeness auto

termination
proof (relation "measure (\<lambda>(buf, offset, resp). length buf - offset)", goal_cases)
  case 1
  show ?case by simp
next
  case (2 buf offset resp idx p offset')
  from IndexByte_less [OF 2(1)] show ?case using 2 by simp
next
  case (3 buf offset resp idx p offset' sz)
  from IndexByte_less [OF 3(1)] show ?case using 3 by simp
qed

declare parse_loop.simps [simp del]

definition parse :: "string \<Rightarrow> parse_result" where
  "parse buf = parse_loop buf 0 []"


section \<open>The argument encoder: the first half of \<open>Client.send\<close>\<close>

text \<open>
  An argument is an \<open>interface{}\<close> value; the type switch of \<open>send\<close> tells the cases apart.
  \<open>AInt\<close> stands for a value of one of the types \<open>int\<close>, \<open>int32\<close>, \<open>int64\<close>, \<open>uint\<close>,
  \<open>uint32\<close>, \<open>uint64\<close>.  Floating point is outside the embedding: \<open>AFloat t\<close> is a
  \<open>float32\<close> or \<open>float64\<close> argument for which \<open>fmt.Sprintf("%f", arg)\<close> yields the text \<open>t\<close>.
  \<open>AOther t\<close> is a value of any other type, whose \<open>%v\<close> rendering is \<open>t\<close>.
\<close>

type_synonym error = string

datatype arg =
    AString string
  | ABytes string
  | AStrings "string list"
  | AInt int
  | AFloat string
  | ABool bool
  | ANil
  | AOther string

text \<open>The four writes \<open>WriteString(p); WriteByte('\n'); WriteString(s); WriteByte('\n')\<close>.\<close>

definition write_block :: "string \<Rightarrow> string \<Rightarrow> string" where
  "write_block buf s = buf @ Itoa (int (length s)) @ [LF] @ s @ [LF]"

fun encode_loop :: "string \<Rightarrow> arg list \<Rightarrow> error + string" where
  "encode_loop buf [] = Inr (buf @ [LF])"
| "encode_loop buf (AString s # args) = encode_loop (write_block buf s) args"
| "encode_loop buf (ABytes s # args) = encode_loop (write_block buf s) args"
| "encode_loop buf (AStrings ss # args) = encode_loop (foldl write_block buf ss) args"
| "encode_loop buf (AInt i # args) = encode_loop (write_block buf (Itoa i)) args"
| "encode_loop buf (AFloat t # args) = encode_loop (write_block buf t) args"
| "encode_loop buf (ABool b # args) = encode_loop (write_block buf (if b then ''1'' else ''0'')) args"
| "encode_loop buf (ANil # args) = encode_loop (write_block buf []) args"
| "encode_loop buf (AOther t # args) = Inl (''bad request:'' @ t)"

definition encode :: "arg list \<Rightarrow> error + string" where
  "encode args = encode_loop [] args"


section \<open>The connection engine\<close>

text \<open>
  A \<open>Client\<close> holds its socket, its receive buffer and its mutex.  \<open>sock_open\<close> tells
  whether \<open>c.sock\<close> is a live connection, \<open>conn\<close> counts the connections dialled for the
  client since \<open>Connect\<close> (so it identifies the socket), \<open>mutex\<close> tells whether
  \<open>c.mutex\<close> is held.

  The network and the peer are a script: the outcome of each successive \<open>Write\<close> and
  \<open>Read\<close> on a live socket and of each successive \<open>DialTCP\<close>.  An operation that finds
  its script exhausted fails with a timeout; for \<open>Read\<close> this is the deadline that \<open>recv\<close>
  sets once before its loop.  \<open>sent\<close> logs the requests that were written.
\<close>

record client =
  sock_open :: bool
  conn :: nat
  recv_buf :: string
  mutex :: bool

record world =
  writes :: "error option list"
  reads :: "(error + string) list"
  dials :: "error option list"
  sent :: "string list"

datatype 'a outcome = Returned 'a | Blocked | Panicked

definition MAX_RETRIES :: int where
  "MAX_RETRIES = 3"

definition ErrBadResponse :: error where
  "ErrBadResponse = ''bad response''"

definition ErrNotEnoughParams :: error where
  "ErrNotEnoughParams = ''not enougn params''"

definition ErrClosed :: error where
  "ErrClosed = ''use of closed network connection''"

definition ErrTimeout :: error where
  "ErrTimeout = ''i/o timeout''"

text \<open>\<open>strings.Contains\<close>.\<close>

fun Contains :: "string \<Rightarrow> string \<Rightarrow> bool" where
  "Contains [] substr = (substr = [])"
| "Contains (x # xs) substr = (take (length substr) (x # xs) = substr \<or> Contains xs substr)"

definition Close :: "client \<Rightarrow> error option \<times> client" where
  "Close c = ((if sock_open c then None else Some ErrClosed), c\<lparr>sock_open := False\<rparr>)"

text \<open>
  \<open>Reconnect\<close> returns right after a failed dial: the socket stays closed and the
  receive buffer is kept.
\<close>

definition Reconnect :: "client \<Rightarrow> world \<Rightarrow> error option \<times> client \<times> world" where
  "Reconnect c w =
     (let c1 = snd (Close c) in
      case dials w of
        [] \<Rightarrow> (Some ErrTimeout, c1, w)
      | Some err # ds \<Rightarrow> (Some err, c1, w\<lparr>dials := ds\<rparr>)
      | None # ds \<Rightarrow>
          (None, c1\<lparr>sock_open := True, conn := conn c1 + 1, recv_buf := []\<rparr>, w\<lparr>dials := ds\<rparr>))"

definition send :: "client \<Rightarrow> world \<Rightarrow> arg list \<Rightarrow> error option \<times> client \<times> world" where
  "send c w args =
     (case encode args of
        Inl err \<Rightarrow> (Some err, c, w)
      | Inr buf \<Rightarrow>
          if \<not> sock_open c then (Some ErrClosed, c, w)
          else (case writes w of
                  [] \<Rightarrow> (Some ErrTimeout, c, w)
                | Some err # ws \<Rightarrow> (Some err, c, w\<lparr>writes := ws\<rparr>)
                | None # ws \<Rightarrow> (None, c, w\<lparr>writes := ws, sent := sent w @ [buf]\<rparr>)))"

type_synonym response = "string list option \<times> error option"

text \<open>
  The loop of \<open>recv\<close> on the receive buffer and the script of reads; it returns the
  buffer and the reads that are left.
\<close>

fun recv_loop :: "string \<Rightarrow> (error + string) list \<Rightarrow> response outcome \<times> string \<times> (error + string) list" where
  "recv_loop buf [] = (Returned (None, Some ErrTimeout), buf, [])"
| "recv_loop buf (Inl err # rs) = (Returned (None, Some err), buf, rs)"
| "recv_loop buf (Inr tmp # rs) =
     (case parse (buf @ tmp) of
        ParsePanic \<Rightarrow> (Panicked, buf @ tmp, rs)
      | Parsed None buf' \<Rightarrow> (Returned (None, None), buf', rs)
      | Parsed (Some resp) buf' \<Rightarrow>
          if resp = [] then recv_loop buf' rs else (Returned (Some resp, None), buf', rs))"

definition recv :: "client \<Rightarrow> world \<Rightarrow> response outcome \<times> client \<times> world" where
  "recv c w =
     (if \<not> sock_open c then (Returned (None, Some ErrClosed), c, w)
      else case recv_loop (recv_buf c) (reads w) of
             (out, buf, rs) \<Rightarrow> (out, c\<lparr>recv_buf := buf\<rparr>, w\<lparr>reads := rs\<rparr>))"


text \<open>
  \<open>Do\<close> takes the mutex and releases it by a deferred call, which runs when \<open>Do\<close>
  returns or panics.  \<open>sync.Mutex\<close> is not reentrant: \<open>Lock\<close> on a mutex that is held
  waits until another goroutine releases it.  The only \<open>unlock\<close> is the deferred one of the
  frame that holds the mutex, so a \<open>Do\<close> that finds the mutex of its client held never
  returns: its outcome is \<open>Blocked\<close>, with the state in which it waits.
\<close>

definition unlock :: "'a outcome \<times> client \<times> world \<Rightarrow> 'a outcome \<times> client \<times> world" where
  "unlock r =
     (case r of
        (Blocked, c, w) \<Rightarrow> (Blocked, c, w)
      | (out, c, w) \<Rightarrow> (out, c\<lparr>mutex := False\<rparr>, w))"

function Do :: "client \<Rightarrow> world \<Rightarrow> int \<Rightarrow> arg list \<Rightarrow> response outcome \<times> client \<times> world" where
  "Do c w retries args =
     (if mutex c then (Blocked, c, w)
      else
        (case send (c\<lparr>mutex := True\<rparr>) w args of
           (Some err, c1, w1) \<Rightarrow>
             if \<not> Contains err ''bad request'' \<and> retries < MAX_RETRIES then
               (case Reconnect c1 w1 of
                  (_, c2, w2) \<Rightarrow> unlock (Do c2 w2 (retries + 1) args))
             else unlock (Returned (None, Some err), c1, w1)
         | (None, c1, w1) \<Rightarrow>
             (case recv c1 w1 of
                (Returned (resp, err), c2, w2) \<Rightarrow>
                  if err \<noteq> None \<and> retries < MAX_RETRIES then
                    (case Reconnect c2 w2 of
                       (_, c3, w3) \<Rightarrow> unlock (Do c3 w3 (retries + 1) args))
                  else unlock (Returned (resp, err), c2, w2)
              | (out, c2, w2) \<Rightarrow> unlock (out, c2, w2))))"
  by pat_completeness auto
termination
  by (relation "measure (\<lambda>(c, w, retries, args). nat (MAX_RETRIES - retries))") auto

declare Do.simps [simp del]


section \<open>The typed operations used by the claims\<close>

text \<open>\<open>len(resp)\<close> and \<open>resp[i]\<close> read a \<open>nil\<close> slice as the empty one.\<close>

definition items :: "string list option \<Rightarrow> string list" where
  "items resp = (case resp of None \<Rightarrow> [] | Some fs \<Rightarrow> fs)"

definition decode :: "(response \<Rightarrow> 'a) \<Rightarrow> response outcome \<times> client \<times> world \<Rightarrow> 'a outcome \<times> client \<times> world" where
  "decode f r =
     (case r of
        (Returned resp, c, w) \<Rightarrow> (Returned (f resp), c, w)
      | (Blocked, c, w) \<Rightarrow> (Blocked, c, w)
      | (Panicked, c, w) \<Rightarrow> (Panicked, c, w))"

text \<open>The check shared by \<open>Set\<close>, \<open>MultiSet\<close> and \<open>MultiDel\<close>.\<close>

definition ok_status :: "response \<Rightarrow> bool \<times> error option" where
  "ok_status r =
     (case r of
        (resp, Some err) \<Rightarrow> (False, Some err)
      | (resp, None) \<Rightarrow>
          if length (items resp) > 0 \<and> items resp ! 0 = ''ok'' then (True, None)
          else (False, Some ErrBadResponse))"

definition Set :: "client \<Rightarrow> world \<Rightarrow> string \<Rightarrow> string \<Rightarrow> (bool \<times> error option) outcome \<times> client \<times> world" where
  "Set c w key val = decode ok_status (Do c w 0 [AString ''set'', AString key, AString val])"

record KVPair =
  pair_k :: string
  pair_v :: arg

definition MultiSet :: "client \<Rightarrow> world \<Rightarrow> KVPair list \<Rightarrow> (bool \<times> error option) outcome \<times> client \<times> world" where
  "MultiSet c w pairs =
     decode ok_status (Do c w 0 (AString ''multi_set'' # concat (map (\<lambda>pair. [AString (pair_k pair), pair_v pair]) pairs)))"

fun pairs_of :: "string list \<Rightarrow> KVPair list" where
  "pairs_of (key # val # rest) = \<lparr>pair_k = key, pair_v = AString val\<rparr> # pairs_of rest"
| "pairs_of _ = []"

text \<open>A \<open>nil\<close> slice of pairs is the empty list: the loop only ever appends.\<close>

definition MultiGet_status :: "response \<Rightarrow> KVPair list \<times> error option" where
  "MultiGet_status r =
     (case r of
        (resp, Some err) \<Rightarrow> ([], Some err)
      | (resp, None) \<Rightarrow>
          if odd (length (items resp)) \<and> items resp ! 0 = ''ok'' then (pairs_of (tl (items resp)), None)
          else if length (items resp) > 0 \<and> items resp ! 0 = ''not_found'' then ([], None)
          else ([], Some ErrBadResponse))"

definition MultiGet :: "client \<Rightarrow> world \<Rightarrow> string list \<Rightarrow> (KVPair list \<times> error option) outcome \<times> client \<times> world" where
  "MultiGet c w ks = decode MultiGet_status (Do c w 0 (AString ''multi_get'' # map AString ks))"

definition MultiDel :: "client \<Rightarrow> world \<Rightarrow> string list \<Rightarrow> (bool \<times> error option) outcome \<times> client \<times> world" where
  "MultiDel c w ks = decode ok_status (Do c w 0 (AString ''multi_del'' # map AString ks))"

definition MultiHDel_status :: "response \<Rightarrow> bool \<times> error option" where
  "MultiHDel_status r =
     (case r of
        (resp, Some err) \<Rightarrow> (False, Some err)
      | (resp, None) \<Rightarrow>
          if length (items resp) = 2 \<and> items resp ! 0 = ''ok'' then (True, None)
          else (False, Some ErrBadResponse))"

definition MultiHDel :: "client \<Rightarrow> world \<Rightarrow> string \<Rightarrow> string list \<Rightarrow> (bool \<times> error option) outcome \<times> client \<times> world" where
  "MultiHDel c w key fieldList =
     (if length fieldList = 0 then (Returned (False, Some ErrNotEnoughParams), c, w)
      else decode MultiHDel_status (Do c w 0 ([AString ''multi_del'', AString key] @ map AString fieldList)))"


section \<open>SHA-1\<close>

text \<open>
  \<open>crypto/sha1\<close> is library code; it is modelled after FIPS 180-4.  A block is processed
  with a sliding window of sixteen message words: round \<open>t\<close> consumes \<open>w\<^sub>t\<close> and
  appends \<open>w\<^bsub>t+16\<^esub>\<close>.
\<close>

type_synonym u32 = "32 word"
type_synonym byte = "8 word"

definition rotl :: "nat \<Rightarrow> u32 \<Rightarrow> u32" where
  "rotl n x = push_bit n x OR drop_bit (32 - n) x"

definition len_bytes :: "64 word \<Rightarrow> byte list" where
  "len_bytes n = map (\<lambda>s. ucast (drop_bit s n)) [56, 48, 40, 32, 24, 16, 8, 0]"

definition sha1_pad :: "byte list \<Rightarrow> byte list" where
  "sha1_pad m = m @ [0x80] @ replicate ((119 - length m mod 64) mod 64) 0 @ len_bytes (of_nat (8 * length m))"

fun be32 :: "byte list \<Rightarrow> u32" where
  "be32 (a # b # c # d # _) = push_bit 24 (ucast a) OR push_bit 16 (ucast b) OR push_bit 8 (ucast c) OR ucast d"
| "be32 _ = 0"

fun words_of :: "byte list \<Rightarrow> u32 list" where
  "words_of (a # b # c # d # bs) = be32 [a, b, c, d] # words_of bs"
| "words_of _ = []"

type_synonym sha1_state = "u32 \<times> u32 \<times> u32 \<times> u32 \<times> u32"

definition Ch :: "u32 \<Rightarrow> u32 \<Rightarrow> u32 \<Rightarrow> u32" where
  "Ch b c d = (b AND c) OR (NOT b AND d)"
definition Parity :: "u32 \<Rightarrow> u32 \<Rightarrow> u32 \<Rightarrow> u32" where
  "Parity b c d = b XOR c XOR d"
definition Maj :: "u32 \<Rightarrow> u32 \<Rightarrow> u32 \<Rightarrow> u32" where
  "Maj b c d = (b AND c) OR (b AND d) OR (c AND d)"

fun sha1_round :: "(u32 \<Rightarrow> u32 \<Rightarrow> u32 \<Rightarrow> u32) \<Rightarrow> u32 \<Rightarrow> sha1_state \<times> u32 list \<Rightarrow> sha1_state \<times> u32 list" where
  "sha1_round f k ((a, b, c, d, e), w0 # w1 # w2 # w3 # w4 # w5 # w6 # w7 # w8 # w9 # w10 # w11 # w12 # w13 # w14 # w15 # _) =
     ((rotl 5 a + f b c d + e + k + w0, a, rotl 30 b, c, d),
      [w1, w2, w3, w4, w5, w6, w7, w8, w9, w10, w11, w12, w13, w14, w15, rotl 1 (w13 XOR w8 XOR w2 XOR w0)])"
| "sha1_round f k (s, ws) = (s, ws)"

definition sha1_block :: "sha1_state \<Rightarrow> byte list \<Rightarrow> sha1_state" where
  "sha1_block h blk =
     (case h of (h0, h1, h2, h3, h4) \<Rightarrow>
      case ((sha1_round Parity 0xCA62C1D6 ^^ 20) ((sha1_round Maj 0x8F1BBCDC ^^ 20)
             ((sha1_round Parity 0x6ED9EBA1 ^^ 20) ((sha1_round Ch 0x5A827999 ^^ 20) (h, words_of blk))))) of
        ((a, b, c, d, e), _) \<Rightarrow> (h0 + a, h1 + b, h2 + c, h3 + d, h4 + e))"

function sha1_blocks :: "sha1_state \<Rightarrow> byte list \<Rightarrow> sha1_state" where
  "sha1_blocks h bs = (if length bs < 64 then h else sha1_blocks (sha1_block h (take 64 bs)) (drop 64 bs))"
  by pat_completeness auto
termination
  by (relation "measure (\<lambda>(h, bs). length bs)") auto

declare sha1_blocks.simps [simp del]

definition word_bytes :: "u32 \<Rightarrow> byte list" where
  "word_bytes w = [ucast (drop_bit 24 w), ucast (drop_bit 16 w), ucast (drop_bit 8 w), ucast w]"

definition sha1 :: "byte list \<Rightarrow> byte list" where
  "sha1 m =
     (case sha1_blocks (0x67452301, 0xEFCDAB89, 0x98BADCFE, 0x10325476, 0xC3D2E1F0) (sha1_pad m) of
        (a, b, c, d, e) \<Rightarrow> word_bytes a @ word_bytes b @ word_bytes c @ word_bytes d @ word_bytes e)"


text \<open>
  The hash object of \<open>sha1.New()\<close> is the sequence of bytes written so far; \<open>Write\<close>
  takes all of its input and \<open>Sum(nil)\<close> is the digest of what was written.
\<close>

definition Write :: "string \<Rightarrow> string \<Rightarrow> string \<times> nat" where
  "Write h p = (h @ p, length p)"

definition Sum :: "string \<Rightarrow> byte list" where
  "Sum h = sha1 (map of_char h)"


section \<open>The shard router\<close>

text \<open>
  The shard table \<open>c.shards\<close>; every \<open>Client\<close> comes with the script of the network that
  its own connection sees.
\<close>

record cluster =
  shards :: "(client \<times> world) list"

function write_all :: "string \<Rightarrow> string \<Rightarrow> string" where
  "write_all h key =
     (if length key > 0 then (case Write h key of (h', n) \<Rightarrow> write_all h' (drop n key)) else h)"
  by pat_completeness auto
termination
  by (relation "measure (\<lambda>(h, key). length key)") (auto simp: Write_def)

declare write_all.simps [simp del]

text \<open>
  \<open>uint16(len(c.shards))\<close> keeps the low 16 bits of the length; the remainder by zero is a
  run-time panic.
\<close>

definition locate :: "cluster \<Rightarrow> string \<Rightarrow> 16 word outcome" where
  "locate c key =
     (let s = Sum (write_all [] key);
          n = (of_nat (length (shards c)) :: 16 word)
      in if n = 0 then Panicked
         else Returned ((push_bit 0 (ucast (s ! 0)) OR push_bit 8 (ucast (s ! 1))) mod n))"

text \<open>
  \<open>locateKeys\<close> and \<open>locatePairs\<close> fill a \<open>map[int][]T\<close> by
  \<open>res[loc] = append(res[loc], x)\<close>; the map is an association list here.
\<close>

fun append_at :: "nat \<Rightarrow> 'a \<Rightarrow> (nat \<times> 'a list) list \<Rightarrow> (nat \<times> 'a list) list" where
  "append_at loc x [] = [(loc, [x])]"
| "append_at loc x ((i, xs) # res) =
     (if i = loc then (i, xs @ [x]) # res else (i, xs) # append_at loc x res)"

fun locate_loop :: "cluster \<Rightarrow> ('a \<Rightarrow> string) \<Rightarrow> 'a list \<Rightarrow> (nat \<times> 'a list) list \<Rightarrow> (nat \<times> 'a list) list outcome" where
  "locate_loop c key_of [] res = Returned res"
| "locate_loop c key_of (x # xs) res =
     (case locate c (key_of x) of
        Returned loc \<Rightarrow> locate_loop c key_of xs (append_at (unat loc) x res)
      | Blocked \<Rightarrow> Blocked
      | Panicked \<Rightarrow> Panicked)"

definition locateKeys :: "cluster \<Rightarrow> string list \<Rightarrow> (nat \<times> string list) list outcome" where
  "locateKeys c ks = locate_loop c (\<lambda>key. key) ks []"

definition locatePairs :: "cluster \<Rightarrow> KVPair list \<Rightarrow> (nat \<times> KVPair list) list outcome" where
  "locatePairs c ps = locate_loop c pair_k ps []"


text \<open>
  A bulk operation starts one goroutine for each entry of \<open>parts\<close>; the goroutine runs
  the operation on the \<open>Client\<close> of its shard and sends one message on the channel.
  Distinct shards share no state, so every worker starts from the state its shard had
  before the call.  What the scheduler decides is passed in: \<open>arrival\<close> is the order in
  which the messages of the workers are received, \<open>worder\<close> the order in which the
  workers assign to the shared variable \<open>err\<close>.  A worker that panics ends the program; a
  worker that is blocked never sends, and the receiving loop waits for it forever.
\<close>

definition run_workers ::
  "(client \<Rightarrow> world \<Rightarrow> 'a list \<Rightarrow> 'r outcome \<times> client \<times> world) \<Rightarrow> cluster \<Rightarrow> (nat \<times> 'a list) list
     \<Rightarrow> (nat \<times> 'r outcome) list \<times> cluster" where
  "run_workers f c parts =
     (map (\<lambda>(idx, part). (idx, fst (f (fst (shards c ! idx)) (snd (shards c ! idx)) part))) parts,
      c\<lparr>shards :=
          fold (\<lambda>(idx, part) sh. sh[idx := snd (f (fst (shards c ! idx)) (snd (shards c ! idx)) part)])
            parts (shards c)\<rparr>)"

definition join :: "(nat \<times> 'r outcome) list \<Rightarrow> 'b \<Rightarrow> 'b outcome" where
  "join runs res =
     (if Panicked \<in> snd ` set runs then Panicked
      else if Blocked \<in> snd ` set runs then Blocked
      else Returned res)"

text \<open>The message of a \<open>MultiGet\<close> worker: the pairs, or \<open>nil\<close>.\<close>

definition pairs_msg :: "(KVPair list \<times> error option) outcome option \<Rightarrow> KVPair list" where
  "pairs_msg r = (case r of Some (Returned (ps, None)) \<Rightarrow> ps | _ \<Rightarrow> [])"

text \<open>The message of a \<open>MultiSet\<close> or \<open>MultiDel\<close> worker is \<open>idx\<close> (here \<open>True\<close>) or \<open>-1\<close>.\<close>

definition idx_msg :: "(bool \<times> error option) outcome option \<Rightarrow> bool" where
  "idx_msg r = (case r of Some (Returned (success, None)) \<Rightarrow> success | _ \<Rightarrow> False)"

definition err_written :: "(nat \<times> (bool \<times> error option) outcome) list \<Rightarrow> nat list \<Rightarrow> error option" where
  "err_written runs worder =
     fold (\<lambda>idx err. case map_of runs idx of Some (Returned (success, Some err2)) \<Rightarrow> Some err2 | _ \<Rightarrow> err)
       worder None"

definition part_of :: "(nat \<times> 'a list) list \<Rightarrow> nat \<Rightarrow> 'a list" where
  "part_of parts idx = (case map_of parts idx of Some part \<Rightarrow> part | None \<Rightarrow> [])"

definition Cluster_MultiGet :: "cluster \<Rightarrow> nat list \<Rightarrow> string list \<Rightarrow> KVPair list outcome \<times> cluster" where
  "Cluster_MultiGet c arrival ks =
     (if length ks = 0 then (Returned [], c)
      else case locateKeys c ks of
             Returned parts \<Rightarrow>
               (case run_workers MultiGet c parts of
                  (runs, c') \<Rightarrow>
                    (join runs (concat (map (\<lambda>idx. pairs_msg (map_of runs idx)) arrival)), c'))
           | Blocked \<Rightarrow> (Blocked, c)
           | Panicked \<Rightarrow> (Panicked, c))"

definition Cluster_MultiSet ::
  "cluster \<Rightarrow> nat list \<Rightarrow> nat list \<Rightarrow> KVPair list \<Rightarrow> (string list \<times> error option) outcome \<times> cluster" where
  "Cluster_MultiSet c arrival worder ps =
     (if length ps = 0 then (Returned ([], None), c)
      else case locatePairs c ps of
             Returned parts \<Rightarrow>
               (case run_workers MultiSet c parts of
                  (runs, c') \<Rightarrow>
                    (join runs
                       (concat (map (\<lambda>idx. if idx_msg (map_of runs idx) then map pair_k (part_of parts idx) else [])
                                  arrival),
                        err_written runs worder), c'))
           | Blocked \<Rightarrow> (Blocked, c)
           | Panicked \<Rightarrow> (Panicked, c))"

definition Cluster_MultiDel ::
  "cluster \<Rightarrow> nat list \<Rightarrow> nat list \<Rightarrow> string list \<Rightarrow> (string list \<times> error option) outcome \<times> cluster" where
  "Cluster_MultiDel c arrival worder ks =
     (if length ks = 0 then (Returned ([], None), c)
      else case locateKeys c ks of
             Returned parts \<Rightarrow>
               (case run_workers MultiDel c parts of
                  (runs, c') \<Rightarrow>
                    (join runs
                       (concat (map (\<lambda>idx. if idx_msg (map_of runs idx) then part_of parts idx else []) arrival),
                        err_written runs worder), c'))
           | Blocked \<Rightarrow> (Blocked, c)
           | Panicked \<Rightarrow> (Panicked, c))"


text \<open>
  The placement rule in the words of the specification: the first two bytes of the SHA-1
  digest of the key, read as a little-endian 16-bit integer, modulo the shard count.
\<close>

definition shardOf_spec :: "string \<Rightarrow> nat \<Rightarrow> nat" where
  "shardOf_spec key n = (unat (sha1 (map of_char key) ! 0) + 256 * unat (sha1 (map of_char key) ! 1)) mod n"


section \<open>States used in examples\<close>

text \<open>The \<open>Client\<close> that a successful \<open>Connect\<close> returns, and a network on which nothing happens.\<close>

definition connected :: client where
  "connected = \<lparr>sock_open = True, conn = 0, recv_buf = [], mutex = False\<rparr>"

definition silent :: world where
  "silent = \<lparr>writes = [], reads = [], dials = [], sent = []\<rparr>"


section \<open>The wire format in the words of the specification\<close>

text \<open>
  Each value is framed as its decimal length, a line feed, its bytes and a line feed;
  a sequence of texts stands for one value per element; the request ends with one empty
  line.
\<close>

definition frame :: "string \<Rightarrow> string" where
  "frame s = Itoa (int (length s)) @ [LF] @ s @ [LF]"

fun arg_values :: "arg \<Rightarrow> string list" where
  "arg_values (AString s) = [s]"
| "arg_values (ABytes s) = [s]"
| "arg_values (AStrings ss) = ss"
| "arg_values (AInt i) = [Itoa i]"
| "arg_values (AFloat t) = [t]"
| "arg_values (ABool b) = [if b then ''1'' else ''0'']"
| "arg_values ANil = [[]]"
| "arg_values (AOther t) = []"

definition encode_spec :: "arg list \<Rightarrow> string" where
  "encode_spec args = concat (map frame (concat (map arg_values args))) @ [LF]"

fun supported :: "arg \<Rightarrow> bool" where
  "supported (AOther t) = False"
| "supported _ = True"


text \<open>A peer that accepts one request and answers it with the single field \<open>ok\<close>.\<close>

definition set_ok :: world where
  "set_ok = silent\<lparr>writes := [None], reads := [Inr (''2'' @ [LF] @ ''ok'' @ [LF, LF])]\<rparr>"


section \<open>Scenarios\<close>

text \<open>
  The request \<open>get k\<close>; a peer whose first write fails and which would serve the retry; a
  peer whose first read fails and which would serve the retry.
\<close>

definition get_k :: "arg list" where
  "get_k = [AString ''get'', AString ''k'']"

definition get_k_request :: string where
  "get_k_request = ''3'' @ [LF] @ ''get'' @ [LF] @ ''1'' @ [LF] @ ''k'' @ [LF, LF]"

definition reset_then_ok :: world where
  "reset_then_ok = silent\<lparr>writes := [Some ''connection reset by peer'', None], dials := [None],
      reads := [Inr (''2'' @ [LF] @ ''ok'' @ [LF, LF])]\<rparr>"

definition read_fails_then_ok :: world where
  "read_fails_then_ok = silent\<lparr>writes := [None, None], dials := [None],
      reads := [Inl ''connection reset by peer'', Inr (''2'' @ [LF] @ ''ok'' @ [LF, LF])]\<rparr>"



section \<open>Notions used to state the decoder's properties\<close>

text \<open>
  \<open>incomplete\<close> holds of the result \<open>[]string{}\<close>; \<open>grow r x\<close> is the result \<open>r\<close> with \<open>x\<close>
  appended to the buffer it leaves.
\<close>

fun grow :: "parse_result \<Rightarrow> string \<Rightarrow> parse_result" where
  "grow ParsePanic x = ParsePanic"
| "grow (Parsed r b) x = Parsed r (b @ x)"

definition incomplete :: "parse_result \<Rightarrow> bool" where
  "incomplete r = (case r of Parsed (Some []) b \<Rightarrow> True | _ \<Rightarrow> False)"



section \<open>The merge of a bulk operation in the words of the specification\<close>

text \<open>
  \<open>loc\<close> is the index that \<open>locate\<close> returns.  The partition of shard \<open>idx\<close> holds the
  inputs that belong to it, in their original relative order; the participating shards
  are those with a non-empty partition, in ascending order.  \<open>worker f c idx part\<close> is
  the result of the sub-request \<open>f\<close> of shard \<open>idx\<close>, and \<open>all_return\<close> says that every
  sub-request comes back.
\<close>

definition loc :: "cluster \<Rightarrow> string \<Rightarrow> nat" where
  "loc c key = (case locate c key of Returned pos \<Rightarrow> unat pos | _ \<Rightarrow> 0)"

definition shard_part :: "cluster \<Rightarrow> ('a \<Rightarrow> string) \<Rightarrow> 'a list \<Rightarrow> nat \<Rightarrow> 'a list" where
  "shard_part c key_of xs idx = filter (\<lambda>x. loc c (key_of x) = idx) xs"

definition participating :: "cluster \<Rightarrow> ('a \<Rightarrow> string) \<Rightarrow> 'a list \<Rightarrow> nat list" where
  "participating c key_of xs = filter (\<lambda>idx. shard_part c key_of xs idx \<noteq> []) [0..<length (shards c)]"

definition worker ::
  "(client \<Rightarrow> world \<Rightarrow> 'a list \<Rightarrow> 'r outcome \<times> client \<times> world) \<Rightarrow> cluster \<Rightarrow> nat \<Rightarrow> 'a list \<Rightarrow> 'r outcome" where
  "worker f c idx part = fst (f (fst (shards c ! idx)) (snd (shards c ! idx)) part)"

definition all_return ::
  "(client \<Rightarrow> world \<Rightarrow> 'a list \<Rightarrow> 'r outcome \<times> client \<times> world) \<Rightarrow> cluster \<Rightarrow> ('a \<Rightarrow> string) \<Rightarrow> 'a list \<Rightarrow> bool" where
  "all_return f c key_of xs =
     (\<forall>idx \<in> set (participating c key_of xs).
        worker f c idx (shard_part c key_of xs idx) \<noteq> Blocked
        \<and> worker f c idx (shard_part c key_of xs idx) \<noteq> Panicked)"

definition succeeded ::
  "(client \<Rightarrow> world \<Rightarrow> 'a list \<Rightarrow> (bool \<times> error option) outcome \<times> client \<times> world) \<Rightarrow> cluster \<Rightarrow> ('a \<Rightarrow> string) \<Rightarrow> 'a list \<Rightarrow> nat \<Rightarrow> bool" where
  "succeeded f c key_of xs idx = (worker f c idx (shard_part c key_of xs idx) = Returned (True, None))"

text \<open>
  The sub-result of a shard: the keys of its partition when its sub-request succeeded
  (the pairs it returned, for a multi-get); a failing shard and a shard without keys
  contribute nothing.
\<close>

definition del_result :: "cluster \<Rightarrow> string list \<Rightarrow> nat \<Rightarrow> string list" where
  "del_result c ks idx =
     (if succeeded MultiDel c (\<lambda>key. key) ks idx then shard_part c (\<lambda>key. key) ks idx else [])"

definition set_result :: "cluster \<Rightarrow> KVPair list \<Rightarrow> nat \<Rightarrow> string list" where
  "set_result c ps idx =
     (if succeeded MultiSet c pair_k ps idx then map pair_k (shard_part c pair_k ps idx) else [])"

definition get_result :: "cluster \<Rightarrow> string list \<Rightarrow> nat \<Rightarrow> KVPair list" where
  "get_result c ks idx =
     (if shard_part c (\<lambda>key. key) ks idx = [] then []
      else case worker MultiGet c idx (shard_part c (\<lambda>key. key) ks idx) of
             Returned (ps, None) \<Rightarrow> ps
           | _ \<Rightarrow> [])"

text \<open>The concatenation of the sub-results in shard-index order.\<close>

definition merge_in_shard_order :: "cluster \<Rightarrow> (nat \<Rightarrow> 'b list) \<Rightarrow> 'b list" where
  "merge_in_shard_order c sub = concat (map sub [0..<length (shards c)])"

text \<open>Operations whose result comes from the status check \<open>ok_status\<close>.\<close>

definition reports_status ::
  "(client \<Rightarrow> world \<Rightarrow> 'a list \<Rightarrow> (bool \<times> error option) outcome \<times> client \<times> world) \<Rightarrow> bool" where
  "reports_status f = (\<forall>cl w part x. fst (f cl w part) = Returned x \<longrightarrow> (\<exists>y. x = ok_status y))"

text \<open>
  A peer that accepts one request and answers it with the given fields, and clusters of
  two shards: both answer \<open>ok\<close>; the second answers a multi-get with the status \<open>error\<close>;
  the second answers it with \<open>not_found\<close>.
\<close>

definition answers :: "string list \<Rightarrow> world" where
  "answers fs = silent\<lparr>writes := [None], reads := [Inr (concat (map frame fs) @ [LF])]\<rparr>"

definition two_shards :: "world \<Rightarrow> world \<Rightarrow> cluster" where
  "two_shards w0 w1 = \<lparr>shards = [(connected, w0), (connected, w1)]\<rparr>"

definition both_ok :: cluster where
  "both_ok = two_shards (answers [''ok'', ''1'']) (answers [''ok'', ''1''])"

definition second_fails :: cluster where
  "second_fails = two_shards (answers [''ok'', ''a'', ''1'']) (answers [''error''])"

definition second_misses :: cluster where
  "second_misses = two_shards (answers [''ok'', ''a'', ''1'']) (answers [''not_found''])"


section \<open>Shard placement\<close>

lemma le16_or: "(push_bit 0 (ucast (a :: 8 word)) OR push_bit 8 (ucast (b :: 8 word)) :: 16 word) = ucast a + push_bit 8 (ucast b)"
proof -
  have "(ucast a :: 16 word) AND push_bit 8 (ucast b) = 0"
    by (rule bit_eqI) (auto simp: bit_simps dest: bit_imp_le_length)
  then show ?thesis
    by (simp add: disjunctive_add_eq_or)
qed

lemma unat_byte_less: "unat (a :: 8 word) < 256"
  using unsigned_less [of a] by simp

lemma unat_ucast_byte: "unat (ucast (a :: 8 word) :: 16 word) = unat a"
  using unat_byte_less [of a] by (simp add: unsigned_ucast_eq take_bit_nat_eq_self)

lemma unat_shifted_byte: "unat (push_bit 8 (ucast (b :: 8 word)) :: 16 word) = 256 * unat b"
proof -
  have "unat (ucast b :: 16 word) * unat (256 :: 16 word) < 2 ^ LENGTH(16)"
    using unat_byte_less [of b] by (simp add: unat_ucast_byte)
  then have "unat (ucast b * 256 :: 16 word) = unat (ucast b :: 16 word) * unat (256 :: 16 word)"
    by (rule unat_mult_lem [THEN iffD1])
  then show ?thesis
    by (simp add: push_bit_eq_mult unat_ucast_byte)
qed

lemma le16: "unat (push_bit 0 (ucast (a :: 8 word)) OR push_bit 8 (ucast (b :: 8 word)) :: 16 word) = unat a + 256 * unat b"
proof -
  have "unat (ucast a :: 16 word) + unat (push_bit 8 (ucast b) :: 16 word) < 2 ^ LENGTH(16)"
    using unat_byte_less [of a] unat_byte_less [of b]
    by (simp add: unat_ucast_byte unat_shifted_byte)
  then have "unat (ucast a + push_bit 8 (ucast b) :: 16 word) = unat a + 256 * unat b"
    by (simp add: unat_add_lem [THEN iffD1] unat_ucast_byte unat_shifted_byte)
  then show ?thesis
    by (simp only: le16_or)
qed

lemma length_sha1: "length (sha1 m) = 20"
  by (simp add: sha1_def word_bytes_def split: prod.splits)

lemma write_all_eq: "write_all h key = h @ key"
  by (subst write_all.simps, subst write_all.simps) (simp add: Write_def)

lemma shard_count_zero: "(of_nat n :: 16 word) = 0 \<longleftrightarrow> n mod 65536 = 0"
  by (simp add: word_of_nat_eq_0_iff dvd_eq_mod_eq_0)

lemma locate_panic_iff: "locate c key = Panicked \<longleftrightarrow> length (shards c) mod 65536 = 0"
  by (simp add: locate_def Let_def shard_count_zero)

lemma locate_returned:
  assumes "length (shards c) mod 65536 \<noteq> 0"
  shows "\<exists>pos. locate c key = Returned pos \<and> unat pos = shardOf_spec key (length (shards c) mod 65536)"
proof -
  have n: "unat (of_nat (length (shards c)) :: 16 word) = length (shards c) mod 65536"
    by (simp add: unat_of_nat)
  have nz: "(of_nat (length (shards c)) :: 16 word) \<noteq> 0"
    using assms by (simp add: shard_count_zero)
  have "unat ((push_bit 0 (ucast (sha1 (map of_char key) ! 0)) OR push_bit 8 (ucast (sha1 (map of_char key) ! 1)))
            mod (of_nat (length (shards c)) :: 16 word)) = shardOf_spec key (length (shards c) mod 65536)"
    unfolding unat_mod le16 n shardOf_spec_def ..
  with nz show ?thesis
    unfolding locate_def Let_def Sum_def write_all_eq by simp
qed

lemma locate_in_range:
  assumes "1 \<le> length (shards c)" "length (shards c) \<le> 65535"
  shows "\<exists>pos. locate c key = Returned pos \<and> unat pos = shardOf_spec key (length (shards c))
           \<and> unat pos < length (shards c)"
proof -
  from assms have m: "length (shards c) mod 65536 = length (shards c)" by simp
  from assms have "length (shards c) \<noteq> 0" by linarith
  with m have "length (shards c) mod 65536 \<noteq> 0" by metis
  from locate_returned [OF this, of key] obtain pos where
    p: "locate c key = Returned pos" "unat pos = shardOf_spec key (length (shards c))"
    unfolding m by blast
  from assms have "shardOf_spec key (length (shards c)) < length (shards c)"
    unfolding shardOf_spec_def by (intro mod_less_divisor) linarith
  with p show ?thesis by simp
qed


text \<open>
  C5, as amended.  For every key and every shard table of 1 to 65535 shards, \<open>locate\<close>
  returns the index that the specification describes: the first two digest bytes as a
  little-endian 16-bit integer, modulo the shard count.  The index is below the length of
  the table, and it depends on the key and on the size of the table only.
\<close>

theorem locate_shardOf:
  assumes "1 \<le> length (shards c)" and "length (shards c) \<le> 65535"
  shows "\<exists>pos. locate c key = Returned pos
           \<and> unat pos = shardOf_spec key (length (shards c))
           \<and> unat pos < length (shards c)
           \<and> (\<forall>c'. length (shards c') = length (shards c) \<longrightarrow> locate c' key = Returned pos)"
proof -
  from locate_in_range [OF assms, of key] obtain pos where
    p: "locate c key = Returned pos" "unat pos = shardOf_spec key (length (shards c))"
       "unat pos < length (shards c)" by blast
  have "locate c' key = Returned pos" if "length (shards c') = length (shards c)" for c'
    using that p(1) by (simp add: locate_def)
  with p show ?thesis by blast
qed


theorem locate_shardOf_witness:
  "\<exists>pos. locate \<lparr>shards = [(connected, silent), (connected, silent), (connected, silent)]\<rparr> ''a'' = Returned pos
     \<and> unat pos = shardOf_spec ''a'' 3 \<and> unat pos < 3"
  using locate_shardOf [of "\<lparr>shards = [(connected, silent), (connected, silent), (connected, silent)]\<rparr>" "''a''"]
  by (auto simp: numeral_3_eq_3)


text \<open>
  C5 as stated, for every non-empty table, fails at a table of 65536 shards: the count is
  truncated to zero and \<open>locate\<close> panics.
\<close>

theorem locate_shardOf_counterexample:
  "locate \<lparr>shards = replicate 65536 (connected, silent)\<rparr> ''a'' = Panicked"
  by (simp add: locate_panic_iff)


text \<open>
  C9, as amended.  \<open>locate\<close> reduces the little-endian 16-bit prefix of the digest modulo
  \<open>uint16(len(c.shards))\<close>, the shard count truncated to 16 bits.  It panics exactly when
  the truncated count is zero, in particular on the empty table, so it returns only for
  a non-empty table.  Otherwise it returns the digest prefix modulo the truncated
  count, which is below the truncated count and below the length of the table.  For
  tables of 1 to 65535 shards the truncated count is the shard count.
\<close>

theorem locate_truncated_count:
  "(locate c key = Panicked \<longleftrightarrow> length (shards c) mod 65536 = 0)
   \<and> (shards c = [] \<longrightarrow> locate c key = Panicked)
   \<and> (locate c key \<noteq> Panicked \<longrightarrow> shards c \<noteq> [])
   \<and> (length (shards c) mod 65536 \<noteq> 0 \<longrightarrow>
        (\<exists>pos. locate c key = Returned pos
           \<and> unat pos = shardOf_spec key (length (shards c) mod 65536)
           \<and> unat pos < length (shards c) mod 65536
           \<and> unat pos < length (shards c)))
   \<and> (1 \<le> length (shards c) \<and> length (shards c) \<le> 65535 \<longrightarrow>
        (\<exists>pos. locate c key = Returned pos
           \<and> unat pos = shardOf_spec key (length (shards c))
           \<and> unat pos < length (shards c)))"
proof -
  have a: "locate c key = Panicked \<longleftrightarrow> length (shards c) mod 65536 = 0"
    by (rule locate_panic_iff)
  have b: "\<exists>pos. locate c key = Returned pos
           \<and> unat pos = shardOf_spec key (length (shards c) mod 65536)
           \<and> unat pos < length (shards c) mod 65536
           \<and> unat pos < length (shards c)"
    if "length (shards c) mod 65536 \<noteq> 0"
  proof -
    from locate_returned [OF that, of key] obtain pos where
      p: "locate c key = Returned pos" "unat pos = shardOf_spec key (length (shards c) mod 65536)"
      by blast
    from that have l: "shardOf_spec key (length (shards c) mod 65536) < length (shards c) mod 65536"
      unfolding shardOf_spec_def by (intro mod_less_divisor) linarith
    have "length (shards c) mod 65536 \<le> length (shards c)" by (rule mod_less_eq_dividend)
    with l p show ?thesis by simp
  qed
  have c: "\<exists>pos. locate c key = Returned pos
           \<and> unat pos = shardOf_spec key (length (shards c)) \<and> unat pos < length (shards c)"
    if "1 \<le> length (shards c) \<and> length (shards c) \<le> 65535"
    using locate_in_range [of c key] that by blast
  have e: "locate c key \<noteq> Panicked \<longrightarrow> shards c \<noteq> []"
    unfolding a by auto
  have f: "shards c = [] \<longrightarrow> locate c key = Panicked"
    unfolding a by simp
  from a b c e f show ?thesis
    by blast
qed

theorem locate_truncated_count_witness:
  "locate \<lparr>shards = []\<rparr> ''a'' = Panicked
   \<and> locate \<lparr>shards = replicate 65536 (connected, silent)\<rparr> ''a'' = Panicked
   \<and> (\<exists>pos. locate \<lparr>shards = [(connected, silent), (connected, silent)]\<rparr> ''a'' = Returned pos
         \<and> unat pos = shardOf_spec ''a'' 2 \<and> unat pos < 2)
   \<and> (\<exists>pos. locate \<lparr>shards = replicate 65539 (connected, silent)\<rparr> ''a'' = Returned pos
         \<and> unat pos = shardOf_spec ''a'' 3 \<and> unat pos < 3)"
proof -
  have "locate \<lparr>shards = []\<rparr> ''a'' = Panicked"
    using locate_truncated_count [of "\<lparr>shards = []\<rparr>" "''a''"] by simp
  moreover have "locate \<lparr>shards = replicate 65536 (connected, silent)\<rparr> ''a'' = Panicked"
    using locate_truncated_count [of "\<lparr>shards = replicate 65536 (connected, silent)\<rparr>" "''a''"] by simp
  moreover have "\<exists>pos. locate \<lparr>shards = [(connected, silent), (connected, silent)]\<rparr> ''a'' = Returned pos
         \<and> unat pos = shardOf_spec ''a'' 2 \<and> unat pos < 2"
    using locate_truncated_count [of "\<lparr>shards = [(connected, silent), (connected, silent)]\<rparr>" "''a''"]
    by (auto simp: numeral_2_eq_2)
  moreover have "\<exists>pos. locate \<lparr>shards = replicate 65539 (connected, silent)\<rparr> ''a'' = Returned pos
         \<and> unat pos = shardOf_spec ''a'' 3 \<and> unat pos < 3"
    using locate_truncated_count [of "\<lparr>shards = replicate 65539 (connected, silent)\<rparr>" "''a''"]
    by auto
  ultimately show ?thesis by blast
qed

text \<open>
  C9 as stated says that the index is in range only for tables of 1 to 65535 shards.  A
  table of 65537 shards has the truncated count 1: \<open>locate\<close> returns the index 0, which
  is in range.
\<close>

theorem locate_truncated_count_counterexample:
  "locate \<lparr>shards = replicate 65537 (connected, silent)\<rparr> ''a'' = Returned 0
   \<and> unat (0 :: 16 word) < length (shards \<lparr>shards = replicate 65537 (connected, silent)\<rparr>)"
proof -
  have "length (shards \<lparr>shards = replicate 65537 (connected, silent)\<rparr>) mod 65536 \<noteq> 0"
    by simp
  from locate_returned [OF this, of "''a''"] obtain pos where
    p: "locate \<lparr>shards = replicate 65537 (connected, silent)\<rparr> ''a'' = Returned pos"
    and u: "unat pos = shardOf_spec ''a'' (length (shards \<lparr>shards = replicate 65537 (connected, silent)\<rparr>) mod 65536)"
    by blast
  from u have "unat pos = 0" by (simp add: shardOf_spec_def)
  then have "pos = 0" by (simp add: unsigned_eq_0_iff)
  with p show ?thesis by simp
qed


section \<open>The encoder\<close>

lemma write_block_frame: "write_block buf s = buf @ frame s"
  by (simp add: write_block_def frame_def)

lemma foldl_write_block: "foldl write_block buf ss = buf @ concat (map frame ss)"
  by (induction ss arbitrary: buf) (simp_all add: write_block_frame)

lemma encode_loop_frames:
  "\<forall>a \<in> set args. supported a \<Longrightarrow>
     encode_loop buf args = Inr (buf @ concat (map frame (concat (map arg_values args))) @ [LF])"
proof (induction args arbitrary: buf)
  case Nil
  then show ?case by simp
next
  case (Cons a args)
  then show ?case
    by (cases a) (simp_all add: write_block_frame foldl_write_block)
qed

lemma nat_dec_small: "n < 10 \<Longrightarrow> nat_dec n = [digit_char n]"
  by (simp add: nat_dec.simps)


lemma ex_encode: "encode [AString ''set'', AString ''a'', AString ''1'']
    = Inr (''3'' @ [LF] @ ''set'' @ [LF] @ ''1'' @ [LF] @ ''a'' @ [LF] @ ''1'' @ [LF] @ ''1'' @ [LF, LF])"
  by (simp add: encode_def write_block_def Itoa_def nat_dec_small digit_char_def)



lemma encode_supported: "\<forall>a \<in> set args. supported a \<Longrightarrow> encode args = Inr (encode_spec args)"
  by (simp add: encode_def encode_spec_def encode_loop_frames)


section \<open>One step of \<open>Do\<close>\<close>

lemmas parse_eval = parse_def parse_loop.simps Atoi_def is_digit_def digits_val_def LF_def CR_def max_int_def Let_def

lemma Do_locked: "mutex c \<Longrightarrow> Do c w retries args = (Blocked, c, w)"
  by (simp add: Do.simps)

lemma Reconnect_keeps:
  "Reconnect c w = (e, c', w') \<Longrightarrow> mutex c' = mutex c \<and> sent w' = sent w \<and> writes w' = writes w \<and> reads w' = reads w"
  by (auto simp: Reconnect_def Close_def Let_def split: list.splits option.splits)

lemma recv_keeps:
  "recv c w = (out, c', w') \<Longrightarrow> mutex c' = mutex c \<and> sent w' = sent w \<and> writes w' = writes w \<and> dials w' = dials w
     \<and> sock_open c' = sock_open c \<and> conn c' = conn c"
  by (auto simp: recv_def split: if_splits prod.splits)

lemma unlock_world: "snd (snd (unlock r)) = snd (snd r)"
  by (cases r) (auto simp: unlock_def split: outcome.splits)

lemma retry_blocked:
  assumes "mutex c"
  shows "(case Reconnect c w of (x, c', w') \<Rightarrow> unlock (Do c' w' r args)) = (Blocked, snd (Reconnect c w))"
proof -
  obtain e c' w' where R: "Reconnect c w = (e, c', w')" by (cases "Reconnect c w")
  with assms Reconnect_keeps [OF R] have "mutex c'" by simp
  then show ?thesis by (simp add: R Do_locked unlock_def)
qed

lemma send_client: "send c w args = (e, c', w') \<Longrightarrow> c' = c"
  by (auto simp: send_def split: sum.splits if_splits list.splits option.splits)

text \<open>One step of \<open>Do\<close> on a free mutex: a retry re-enters \<open>Do\<close> with the mutex held.\<close>

lemma Do_unfold:
  assumes "\<not> mutex c"
  shows "Do c w r args =
     (case send (c\<lparr>mutex := True\<rparr>) w args of
        (Some err, c1, w1) \<Rightarrow>
          if \<not> Contains err ''bad request'' \<and> r < MAX_RETRIES then (Blocked, snd (Reconnect c1 w1))
          else unlock (Returned (None, Some err), c1, w1)
      | (None, c1, w1) \<Rightarrow>
          (case recv c1 w1 of
             (Returned (resp, err), c2, w2) \<Rightarrow>
               if err \<noteq> None \<and> r < MAX_RETRIES then (Blocked, snd (Reconnect c2 w2))
               else unlock (Returned (resp, err), c2, w2)
           | (out, c2, w2) \<Rightarrow> unlock (out, c2, w2)))"
proof -
  obtain e c1 w1 where s: "send (c\<lparr>mutex := True\<rparr>) w args = (e, c1, w1)"
    by (cases "send (c\<lparr>mutex := True\<rparr>) w args")
  from send_client [OF s] have m1: "mutex c1" by simp
  obtain out c2 w2 where r: "recv c1 w1 = (out, c2, w2)"
    by (cases "recv c1 w1")
  from recv_keeps [OF r] m1 have m2: "mutex c2" by simp
  show ?thesis
    using assms
    by (subst Do.simps)
       (simp add: s r retry_blocked [OF m1] retry_blocked [OF m2] split: option.splits outcome.splits)
qed

lemma Do_sent:
  assumes "\<not> mutex c" "sock_open c" "writes w = None # ws" "encode args = Inr req"
  shows "sent (snd (snd (Do c w r args))) = sent w @ [req]"
proof -
  let ?c1 = "c\<lparr>mutex := True\<rparr>" and ?w1 = "w\<lparr>writes := ws, sent := sent w @ [req]\<rparr>"
  have s: "send ?c1 w args = (None, ?c1, ?w1)"
    using assms by (simp add: send_def)
  obtain out c2 w2 where r: "recv ?c1 ?w1 = (out, c2, w2)" by (cases "recv ?c1 ?w1")
  from recv_keeps [OF r] have k: "sent w2 = sent w @ [req]" by simp
  have "sent (snd (snd (Reconnect c2 w2))) = sent w2"
    using Reconnect_keeps [of c2 w2] by (cases "Reconnect c2 w2") simp
  with k show ?thesis
    by (simp add: Do_unfold [OF assms(1)] s r unlock_world split: outcome.splits prod.splits option.splits)
qed


text \<open>
  C7.  For every list of arguments of supported types the encoder produces exactly the
  frames of the values, in order, followed by one empty line, and \<open>send\<close> writes these
  bytes; \<open>set("a","1")\<close> encodes to \<open>3\nset\n1\na\n1\n1\n\n\<close>; and when the response is the
  single field \<open>ok\<close>, \<open>Set\<close> returns success.
\<close>

theorem encode_wire_format:
  assumes "\<forall>a \<in> set args. supported a"
  shows "encode args = Inr (encode_spec args)
    \<and> (sock_open c \<and> writes w = None # ws \<longrightarrow>
          send c w args = (None, c, w\<lparr>writes := ws, sent := sent w @ [encode_spec args]\<rparr>))
    \<and> encode [AString ''set'', AString ''a'', AString ''1'']
         = Inr (''3'' @ [LF] @ ''set'' @ [LF] @ ''1'' @ [LF] @ ''a'' @ [LF] @ ''1'' @ [LF] @ ''1'' @ [LF, LF])
    \<and> (fst (Do c w 0 [AString ''set'', AString key, AString val]) = Returned (Some [''ok''], None) \<longrightarrow>
          fst (Set c w key val) = Returned (True, None))"
proof -
  have a: "encode args = Inr (encode_spec args)"
    using assms by (rule encode_supported)
  have b: "send c w args = (None, c, w\<lparr>writes := ws, sent := sent w @ [encode_spec args]\<rparr>)"
    if "sock_open c \<and> writes w = None # ws"
    using that by (simp add: send_def a)
  have c: "encode [AString ''set'', AString ''a'', AString ''1'']
         = Inr (''3'' @ [LF] @ ''set'' @ [LF] @ ''1'' @ [LF] @ ''a'' @ [LF] @ ''1'' @ [LF] @ ''1'' @ [LF, LF])"
    by (simp add: encode_def write_block_def Itoa_def nat_dec_small digit_char_def)
  have d: "fst (Set c w key val) = Returned (True, None)"
    if "fst (Do c w 0 [AString ''set'', AString key, AString val]) = Returned (Some [''ok''], None)"
    using that
    by (cases "Do c w 0 [AString ''set'', AString key, AString val]")
       (simp add: Set_def decode_def ok_status_def items_def)
  from a b c d show ?thesis by blast
qed

theorem encode_wire_format_witness:
  "encode [AString ''get'', AInt (- 12), ABool True, ANil, AStrings [''ab'', ''c''], ABytes ''xyz'', AFloat ''1.500000'']
     = Inr (''3'' @ [LF] @ ''get'' @ [LF] @ ''3'' @ [LF] @ ''-12'' @ [LF] @ ''1'' @ [LF] @ ''1'' @ [LF] @ ''0'' @ [LF, LF]
            @ ''2'' @ [LF] @ ''ab'' @ [LF] @ ''1'' @ [LF] @ ''c'' @ [LF] @ ''3'' @ [LF] @ ''xyz'' @ [LF]
            @ ''8'' @ [LF] @ ''1.500000'' @ [LF, LF])
   \<and> fst (Do connected set_ok 0 [AString ''set'', AString ''a'', AString ''1'']) = Returned (Some [''ok''], None)
   \<and> fst (Set connected set_ok ''a'' ''1'') = Returned (True, None)
   \<and> sent (snd (snd (Set connected set_ok ''a'' ''1'')))
        = [''3'' @ [LF] @ ''set'' @ [LF] @ ''1'' @ [LF] @ ''a'' @ [LF] @ ''1'' @ [LF] @ ''1'' @ [LF, LF]]"
proof -
  let ?args = "[AString ''get'', AInt (- 12), ABool True, ANil, AStrings [''ab'', ''c''], ABytes ''xyz'', AFloat ''1.500000'']"
  have s: "\<forall>a \<in> set ?args. supported a" by simp
  have e: "encode_spec ?args = ''3'' @ [LF] @ ''get'' @ [LF] @ ''3'' @ [LF] @ ''-12'' @ [LF] @ ''1'' @ [LF] @ ''1'' @ [LF] @ ''0'' @ [LF, LF]
            @ ''2'' @ [LF] @ ''ab'' @ [LF] @ ''1'' @ [LF] @ ''c'' @ [LF] @ ''3'' @ [LF] @ ''xyz'' @ [LF]
            @ ''8'' @ [LF] @ ''1.500000'' @ [LF, LF]"
    by (simp add: encode_spec_def frame_def Itoa_def nat_dec.simps digit_char_def)
  have d: "Do connected set_ok 0 [AString ''set'', AString ''a'', AString ''1'']
     = (Returned (Some [''ok''], None), connected,
        silent\<lparr>sent := [''3'' @ [LF] @ ''set'' @ [LF] @ ''1'' @ [LF] @ ''a'' @ [LF] @ ''1'' @ [LF] @ ''1'' @ [LF, LF]]\<rparr>)"
    by (simp add: Do.simps send_def recv_def ex_encode parse_eval MAX_RETRIES_def connected_def silent_def set_ok_def unlock_def)
  from encode_wire_format [OF s, of connected set_ok "[]" "''a'' " "''1''"] e d show ?thesis
    by (simp add: Set_def decode_def)
qed


text \<open>
  C10.  For every hash key and non-empty field list, \<open>MultiHDel\<close> leaves the client and
  the network exactly as \<open>MultiDel\<close> on the key followed by the fields does, and the
  request that reaches the wire is the frame of \<open>multi_del\<close>, the frame of the key and the
  frames of the fields.
\<close>

theorem MultiHDel_sends_multi_del:
  assumes "fieldList \<noteq> []"
  shows "snd (MultiHDel c w key fieldList) = snd (MultiDel c w (key # fieldList))
    \<and> (sock_open c \<and> \<not> mutex c \<and> writes w = None # ws \<longrightarrow>
          sent (snd (snd (MultiHDel c w key fieldList)))
            = sent w @ [frame ''multi_del'' @ frame key @ concat (map frame fieldList) @ [LF]]
          \<and> sent (snd (snd (MultiDel c w (key # fieldList))))
            = sent w @ [frame ''multi_del'' @ frame key @ concat (map frame fieldList) @ [LF]])"
proof -
  let ?args = "AString ''multi_del'' # AString key # map AString fieldList"
  have a: "snd (MultiHDel c w key fieldList) = snd (Do c w 0 ?args)"
    using assms by (cases "Do c w 0 ?args") (auto simp: MultiHDel_def decode_def split: outcome.splits)
  have b: "snd (MultiDel c w (key # fieldList)) = snd (Do c w 0 ?args)"
    by (cases "Do c w 0 ?args") (auto simp: MultiDel_def decode_def split: outcome.splits)
  have "\<forall>a \<in> set ?args. supported a" by auto
  then have "encode ?args = Inr (encode_spec ?args)" by (rule encode_supported)
  moreover have "encode_spec ?args = frame ''multi_del'' @ frame key @ concat (map frame fieldList) @ [LF]"
    by (simp add: encode_spec_def comp_def)
  ultimately have e: "encode ?args = Inr (frame ''multi_del'' @ frame key @ concat (map frame fieldList) @ [LF])"
    by simp
  have "sent (snd (snd (Do c w 0 ?args))) = sent w @ [frame ''multi_del'' @ frame key @ concat (map frame fieldList) @ [LF]]"
    if "sock_open c \<and> \<not> mutex c \<and> writes w = None # ws"
    using that Do_sent [OF _ _ _ e, of c w ws 0] by blast
  with a b show ?thesis by simp
qed

theorem MultiHDel_sends_multi_del_witness:
  "sent (snd (snd (MultiHDel connected set_ok ''h'' [''f1'', ''f2''])))
     = [''9'' @ [LF] @ ''multi_del'' @ [LF] @ ''1'' @ [LF] @ ''h'' @ [LF] @ ''2'' @ [LF] @ ''f1'' @ [LF] @ ''2'' @ [LF] @ ''f2'' @ [LF, LF]]
   \<and> snd (MultiHDel connected set_ok ''h'' [''f1'', ''f2'']) = snd (MultiDel connected set_ok [''h'', ''f1'', ''f2''])"
proof -
  have n: "[''f1'', ''f2''] \<noteq> []" by simp
  have h: "sock_open connected \<and> \<not> mutex connected \<and> writes set_ok = None # []"
    by (simp add: connected_def set_ok_def silent_def)
  from MultiHDel_sends_multi_del [OF n, of connected set_ok "''h''" "[]"] h show ?thesis
    by (simp add: frame_def Itoa_def nat_dec_small digit_char_def set_ok_def silent_def)
qed


section \<open>The frame decoder\<close>

lemma IndexByte_append: "IndexByte xs c = Some i \<Longrightarrow> IndexByte (xs @ ys) c = Some i"
  by (induction xs arbitrary: i) (auto split: if_splits)

lemma parse_loop_keeps:
  "parse_loop buf offset resp = Parsed r b \<Longrightarrow> r = None \<or> r = Some [] \<Longrightarrow> b = buf"
proof (induction buf offset resp rule: parse_loop.induct)
  case (1 buf offset resp)
  show ?case
  proof (cases "IndexByte (drop offset buf) LF")
    case None
    with "1.prems" show ?thesis by (simp add: parse_loop.simps)
  next
    case (Some idx)
    note idx = this
    let ?p = "take idx (drop offset buf)"
    let ?o = "offset + idx + 1"
    show ?thesis
    proof (cases "?p = [] \<or> ?p = [CR]")
      case True
      show ?thesis
      proof (cases "resp = []")
        case True
        with \<open>?p = [] \<or> ?p = [CR]\<close> idx "1.prems" "1.IH"(1) [OF idx refl refl] show ?thesis
          by (subst (asm) parse_loop.simps) (simp add: Let_def)
      next
        case False
        with \<open>?p = [] \<or> ?p = [CR]\<close> idx "1.prems" show ?thesis
          by (subst (asm) parse_loop.simps) (auto simp: Let_def)
      qed
    next
      case False
      note np = this
      show ?thesis
      proof (cases "Atoi ?p")
        case None
        with np idx "1.prems" show ?thesis
          by (subst (asm) parse_loop.simps) (simp add: Let_def)
      next
        case (Some sz)
        show ?thesis
        proof (cases "sz < 0 \<or> ?o + nat sz > max_int \<or> ?o + nat sz \<ge> length buf")
          case True
          with np idx Some "1.prems" show ?thesis
            by (subst (asm) parse_loop.simps) (auto simp: Let_def split: if_splits)
        next
          case False
          with np idx Some "1.prems" "1.IH"(2) [OF idx refl refl np Some] show ?thesis
            by (subst (asm) parse_loop.simps) (simp add: Let_def)
        qed
      qed
    qed
  qed
qed


lemma parse_loop_no_line:
  "IndexByte (drop offset buf) LF = None \<Longrightarrow> parse_loop buf offset resp = Parsed (Some []) buf"
  by (subst parse_loop.simps) simp

lemma parse_loop_blank_skip:
  "IndexByte (drop offset buf) LF = Some idx \<Longrightarrow>
   take idx (drop offset buf) = [] \<or> take idx (drop offset buf) = [CR] \<Longrightarrow> resp = [] \<Longrightarrow>
     parse_loop buf offset resp = parse_loop buf (offset + idx + 1) resp"
  by (subst parse_loop.simps) (simp add: Let_def)

lemma parse_loop_blank_end:
  "IndexByte (drop offset buf) LF = Some idx \<Longrightarrow>
   take idx (drop offset buf) = [] \<or> take idx (drop offset buf) = [CR] \<Longrightarrow> resp \<noteq> [] \<Longrightarrow>
     parse_loop buf offset resp = Parsed (Some resp) (drop (offset + idx + 1) buf)"
  by (subst parse_loop.simps) (simp add: Let_def)

lemma parse_loop_bad_length:
  "IndexByte (drop offset buf) LF = Some idx \<Longrightarrow>
   \<not> (take idx (drop offset buf) = [] \<or> take idx (drop offset buf) = [CR]) \<Longrightarrow>
   Atoi (take idx (drop offset buf)) = None \<or> (\<exists>sz. Atoi (take idx (drop offset buf)) = Some sz \<and> sz < 0) \<Longrightarrow>
     parse_loop buf offset resp = Parsed None buf"
  by (subst parse_loop.simps) (auto simp: Let_def)

lemma parse_loop_overflow:
  "IndexByte (drop offset buf) LF = Some idx \<Longrightarrow>
   \<not> (take idx (drop offset buf) = [] \<or> take idx (drop offset buf) = [CR]) \<Longrightarrow>
   Atoi (take idx (drop offset buf)) = Some sz \<Longrightarrow> \<not> sz < 0 \<Longrightarrow>
   offset + idx + 1 + nat sz > max_int \<Longrightarrow>
     parse_loop buf offset resp = ParsePanic"
  by (subst parse_loop.simps) (simp add: Let_def)

lemma parse_loop_short:
  "IndexByte (drop offset buf) LF = Some idx \<Longrightarrow>
   \<not> (take idx (drop offset buf) = [] \<or> take idx (drop offset buf) = [CR]) \<Longrightarrow>
   Atoi (take idx (drop offset buf)) = Some sz \<Longrightarrow> \<not> sz < 0 \<Longrightarrow>
   \<not> offset + idx + 1 + nat sz > max_int \<Longrightarrow> offset + idx + 1 + nat sz \<ge> length buf \<Longrightarrow>
     parse_loop buf offset resp = Parsed (Some []) buf"
  by (subst parse_loop.simps) (simp add: Let_def)

lemma parse_loop_field:
  "IndexByte (drop offset buf) LF = Some idx \<Longrightarrow>
   \<not> (take idx (drop offset buf) = [] \<or> take idx (drop offset buf) = [CR]) \<Longrightarrow>
   Atoi (take idx (drop offset buf)) = Some sz \<Longrightarrow> \<not> sz < 0 \<Longrightarrow>
   \<not> offset + idx + 1 + nat sz > max_int \<Longrightarrow> \<not> offset + idx + 1 + nat sz \<ge> length buf \<Longrightarrow>
     parse_loop buf offset resp =
       parse_loop buf (offset + idx + 1 + nat sz + 1) (resp @ [take (nat sz) (drop (offset + idx + 1) buf)])"
  by (subst parse_loop.simps) (simp add: Let_def)

lemma parse_loop_append:
  "offset \<le> length buf \<Longrightarrow> \<not> incomplete (parse_loop buf offset resp) \<Longrightarrow>
     parse_loop (buf @ x) offset resp = grow (parse_loop buf offset resp) x"
proof (induction buf offset resp rule: parse_loop.induct)
  case (1 buf offset resp)
  note le = "1.prems"(1) and fin = "1.prems"(2)
  have dr: "drop offset (buf @ x) = drop offset buf @ x"
    using le by simp
  show ?case
  proof (cases "IndexByte (drop offset buf) LF")
    case None
    from fin show ?thesis
      unfolding parse_loop_no_line [OF None] by (simp add: incomplete_def)
  next
    case (Some idx)
    note idx = this
    from IndexByte_less [OF idx] have il: "idx < length buf - offset" by simp
    let ?p = "take idx (drop offset buf)"
    let ?o = "offset + idx + 1"
    have idx': "IndexByte (drop offset (buf @ x)) LF = Some idx"
      unfolding dr using idx by (rule IndexByte_append)
    have p': "take idx (drop offset (buf @ x)) = ?p"
      unfolding dr using il by simp
    have ole: "?o \<le> length buf" using il by simp
    have dro: "drop ?o (buf @ x) = drop ?o buf @ x"
      using ole by simp
    show ?thesis
    proof (cases "?p = [] \<or> ?p = [CR]")
      case True
      note e = this
      from e have e': "take idx (drop offset (buf @ x)) = [] \<or> take idx (drop offset (buf @ x)) = [CR]"
        unfolding p' .
      show ?thesis
      proof (cases "resp = []")
        case True
        note L = parse_loop_blank_skip [OF idx e True] and R = parse_loop_blank_skip [OF idx' e' True]
        from fin have "\<not> incomplete (parse_loop buf ?o resp)"
          unfolding L .
        from "1.IH"(1) [OF idx refl refl e True ole this]
        show ?thesis unfolding L R .
      next
        case False
        note L = parse_loop_blank_end [OF idx e False] and R = parse_loop_blank_end [OF idx' e' False]
        show ?thesis unfolding L R dro by simp
      qed
    next
      case False
      note np = this
      from np have np': "\<not> (take idx (drop offset (buf @ x)) = [] \<or> take idx (drop offset (buf @ x)) = [CR])"
        unfolding p' .
      show ?thesis
      proof (cases "Atoi ?p = None \<or> (\<exists>sz. Atoi ?p = Some sz \<and> sz < 0)")
        case True
        then have bad': "Atoi (take idx (drop offset (buf @ x))) = None
            \<or> (\<exists>sz. Atoi (take idx (drop offset (buf @ x))) = Some sz \<and> sz < 0)"
          unfolding p' .
        show ?thesis
          unfolding parse_loop_bad_length [OF idx np True] parse_loop_bad_length [OF idx' np' bad'] by simp
      next
        case False
        then obtain sz where sz: "Atoi ?p = Some sz" and nn: "\<not> sz < 0"
          by (cases "Atoi ?p") auto
        from sz have sz': "Atoi (take idx (drop offset (buf @ x))) = Some sz"
          unfolding p' .
        show ?thesis
        proof (cases "?o + nat sz > max_int")
          case True
          show ?thesis
            unfolding parse_loop_overflow [OF idx np sz nn True] parse_loop_overflow [OF idx' np' sz' nn True]
            by simp
        next
          case False
          note ok = this
          show ?thesis
          proof (cases "?o + nat sz \<ge> length buf")
            case True
            from fin show ?thesis
              unfolding parse_loop_short [OF idx np sz nn ok True] by (simp add: incomplete_def)
          next
            case False
            note room = this
            from room have room': "\<not> ?o + nat sz \<ge> length (buf @ x)" by simp
            have f: "take (nat sz) (drop ?o (buf @ x)) = take (nat sz) (drop ?o buf)"
              using room by simp
            have le': "?o + nat sz + 1 \<le> length buf" using room by simp
            note L = parse_loop_field [OF idx np sz nn ok room]
              and R = parse_loop_field [OF idx' np' sz' nn ok room']
            from fin have "\<not> incomplete (parse_loop buf (?o + nat sz + 1) (resp @ [take (nat sz) (drop ?o buf)]))"
              unfolding L .
            from "1.IH"(2) [OF idx refl refl np sz nn ok room le' this]
            show ?thesis unfolding L R f .
          qed
        qed
      qed
    qed
  qed
qed

lemma parse_append: "\<not> incomplete (parse buf) \<Longrightarrow> parse (buf @ x) = grow (parse buf) x"
  by (simp add: parse_def parse_loop_append)


lemma parse_keeps: "parse buf = Parsed r b \<Longrightarrow> r = None \<or> r = Some [] \<Longrightarrow> b = buf"
  unfolding parse_def by (rule parse_loop_keeps)

lemma recv_loop_incomplete:
  "incomplete (parse (buf @ tmp)) \<Longrightarrow> recv_loop buf (Inr tmp # rs) = recv_loop (buf @ tmp) rs"
proof -
  assume "incomplete (parse (buf @ tmp))"
  then obtain b where p: "parse (buf @ tmp) = Parsed (Some []) b"
    by (auto simp: incomplete_def split: parse_result.splits option.splits list.splits)
  from parse_keeps [OF p] have "b = buf @ tmp" by simp
  with p show ?thesis by simp
qed

lemma recv_loop_final:
  assumes "\<not> incomplete (parse (buf @ tmp))"
  shows "\<exists>out b. \<forall>rs x. recv_loop buf (Inr tmp # rs) = (out, b, rs)
           \<and> recv_loop buf (Inr (tmp @ x) # rs) = (out, b @ x, rs)"
proof -
  have g: "parse (buf @ tmp @ x) = grow (parse (buf @ tmp)) x" for x
    using parse_append [OF assms, of x] by simp
  show ?thesis
  proof (cases "parse (buf @ tmp)")
    case ParsePanic
    with g show ?thesis by simp
  next
    case (Parsed r b)
    show ?thesis
    proof (cases r)
      case None
      with Parsed parse_keeps [OF Parsed] g show ?thesis by simp
    next
      case (Some resp)
      with Parsed assms have "resp \<noteq> []" by (auto simp: incomplete_def)
      with Some Parsed g show ?thesis by simp
    qed
  qed
qed

lemma recv_loop_shift: "recv_loop (buf @ c) (Inr tmp # rs) = recv_loop buf (Inr (c @ tmp) # rs)"
  by (simp split: parse_result.splits option.splits)

lemma recv_loop_suffix: "recv_loop buf rs = (out, b, rs') \<Longrightarrow> \<exists>pre. rs = pre @ rs'"
proof (induction buf rs rule: recv_loop.induct)
  case (1 buf)
  then show ?case by simp
next
  case (2 buf err rs)
  then have "Inl err # rs = [Inl err] @ rs'" by simp
  then show ?case by blast
next
  case (3 buf tmp rs)
  show ?case
  proof (cases "incomplete (parse (buf @ tmp))")
    case True
    then obtain b0 where p: "parse (buf @ tmp) = Parsed (Some []) b0"
      by (auto simp: incomplete_def split: parse_result.splits option.splits list.splits)
    from "3.IH" [OF p refl refl] "3.prems" p obtain pre where "rs = pre @ rs'" by auto
    then have "Inr tmp # rs = (Inr tmp # pre) @ rs'" by simp
    then show ?thesis by blast
  next
    case False
    from recv_loop_final [OF False] "3.prems" have "Inr tmp # rs = [Inr tmp] @ rs'"
      by auto
    then show ?thesis by blast
  qed
qed

lemma recv_loop_chunks:
  "chunks \<noteq> [] \<Longrightarrow>
     \<exists>out b cs' rs' fed pre. recv_loop buf (map Inr chunks @ rs) = (out, b, map Inr cs' @ rs')
        \<and> recv_loop buf (Inr (concat chunks) # rs) = (out, b @ concat cs', rs')
        \<and> chunks = fed @ cs' \<and> rs = pre @ rs'"
proof (induction chunks arbitrary: buf)
  case Nil
  then show ?case by simp
next
  case (Cons c cs)
  show ?case
  proof (cases "cs = []")
    case True
    obtain out b rs' where r: "recv_loop buf (Inr c # rs) = (out, b, rs')"
      by (cases "recv_loop buf (Inr c # rs)")
    have "\<exists>pre. rs = pre @ rs'"
    proof (cases "incomplete (parse (buf @ c))")
      case True
      from r show ?thesis
        unfolding recv_loop_incomplete [OF True] by (rule recv_loop_suffix)
    next
      case False
      from recv_loop_final [OF False] r have "rs = [] @ rs'" by auto
      then show ?thesis by blast
    qed
    then obtain pre where "rs = pre @ rs'" by blast
    with True r have "recv_loop buf (map Inr (c # cs) @ rs) = (out, b, map Inr [] @ rs')
        \<and> recv_loop buf (Inr (concat (c # cs)) # rs) = (out, b @ concat [], rs')
        \<and> c # cs = [c] @ [] \<and> rs = pre @ rs'"
      by simp
    then show ?thesis by blast
  next
    case False
    show ?thesis
    proof (cases "incomplete (parse (buf @ c))")
      case True
      from Cons.IH [OF False, of "buf @ c"] obtain out b cs' rs' fed pre where
        m: "recv_loop (buf @ c) (map Inr cs @ rs) = (out, b, map Inr cs' @ rs')" and
        o: "recv_loop (buf @ c) (Inr (concat cs) # rs) = (out, b @ concat cs', rs')" and
        f: "cs = fed @ cs'" "rs = pre @ rs'"
        by blast
      have "recv_loop buf (map Inr (c # cs) @ rs) = (out, b, map Inr cs' @ rs')"
        using recv_loop_incomplete [OF True] m by simp
      moreover have "recv_loop buf (Inr (concat (c # cs)) # rs) = (out, b @ concat cs', rs')"
        using o by (simp only: recv_loop_shift concat.simps)
      moreover from f have "c # cs = (c # fed) @ cs'" by simp
      ultimately show ?thesis using f(2) by blast
    next
      case False
      from recv_loop_final [OF False] obtain out b where
        f: "\<And>rs x. recv_loop buf (Inr c # rs) = (out, b, rs)
               \<and> recv_loop buf (Inr (c @ x) # rs) = (out, b @ x, rs)"
        by blast
      from f [of "map Inr cs @ rs"] f [of rs "concat cs"]
      have "recv_loop buf (map Inr (c # cs) @ rs) = (out, b, map Inr cs @ rs)
          \<and> recv_loop buf (Inr (concat (c # cs)) # rs) = (out, b @ concat cs, rs)
          \<and> c # cs = [c] @ cs \<and> rs = [] @ rs"
        by simp
      then show ?thesis by blast
    qed
  qed
qed


text \<open>
  One call of \<open>recv\<close> does not depend on how the bytes are split into reads: for every
  receive buffer, every split of a byte sequence into chunks (one read each) and every
  continuation of the reads, it returns the same result as when the bytes arrive in one
  read, and leaves the same bytes unconsumed, the retained buffer followed by the chunks
  not yet read.  Whenever \<open>parse\<close> returns no frame it leaves the buffer as it is.
\<close>

theorem recv_chunking:
  assumes "chunks \<noteq> []" and "sock_open c"
  shows "(\<exists>out b cs' rs' fed pre.
            recv c (w\<lparr>reads := map Inr chunks @ rs\<rparr>) = (out, c\<lparr>recv_buf := b\<rparr>, w\<lparr>reads := map Inr cs' @ rs'\<rparr>)
          \<and> recv c (w\<lparr>reads := Inr (concat chunks) # rs\<rparr>) = (out, c\<lparr>recv_buf := b @ concat cs'\<rparr>, w\<lparr>reads := rs'\<rparr>)
          \<and> chunks = fed @ cs' \<and> rs = pre @ rs')
       \<and> (\<forall>buf r b. parse buf = Parsed r b \<and> (r = None \<or> r = Some []) \<longrightarrow> b = buf)"
proof -
  from recv_loop_chunks [OF assms(1), of "recv_buf c" rs] obtain out b cs' rs' fed pre where
    "recv_loop (recv_buf c) (map Inr chunks @ rs) = (out, b, map Inr cs' @ rs')"
    "recv_loop (recv_buf c) (Inr (concat chunks) # rs) = (out, b @ concat cs', rs')"
    "chunks = fed @ cs'" "rs = pre @ rs'"
    by blast
  with assms(2) have "recv c (w\<lparr>reads := map Inr chunks @ rs\<rparr>) = (out, c\<lparr>recv_buf := b\<rparr>, w\<lparr>reads := map Inr cs' @ rs'\<rparr>)
          \<and> recv c (w\<lparr>reads := Inr (concat chunks) # rs\<rparr>) = (out, c\<lparr>recv_buf := b @ concat cs'\<rparr>, w\<lparr>reads := rs'\<rparr>)
          \<and> chunks = fed @ cs' \<and> rs = pre @ rs'"
    by (simp add: recv_def)
  then show ?thesis
    using parse_keeps by blast
qed


text \<open>
  C1.  The buffer holds the length line \<open>9223372036854775807\<close> and no payload: fewer than
  \<open>n+1\<close> bytes are available after the length line.  \<open>parse\<close> does not return the
  incomplete result: \<open>offset+size\<close> overflows, the guard \<open>offset+size >= c.recv_buf.Len()\<close>
  is false and the slice expression panics; so does \<open>recv\<close>.  For a length line whose
  sum does not overflow, such as \<open>5\<close>, \<open>parse\<close> returns the incomplete result and keeps
  the buffer.
\<close>

theorem parse_length_overflow:
  "parse (''9223372036854775807'' @ [LF]) = ParsePanic
   \<and> recv connected (silent\<lparr>reads := [Inr (''9223372036854775807'' @ [LF])]\<rparr>)
        = (Panicked, connected\<lparr>recv_buf := ''9223372036854775807'' @ [LF]\<rparr>, silent)
   \<and> parse (''5'' @ [LF] @ ''abc'') = Parsed (Some []) (''5'' @ [LF] @ ''abc'')"
  by (simp add: recv_def connected_def silent_def parse_eval)


section \<open>Retry, reconnection and the mutex\<close>

lemma encode_get_k: "encode get_k = Inr get_k_request"
  by (simp add: get_k_def get_k_request_def encode_def write_block_def Itoa_def nat_dec_small digit_char_def)

lemmas Do_eval = Do_unfold send_def recv_def Reconnect_def Close_def unlock_def MAX_RETRIES_def
  connected_def silent_def encode_get_k ErrClosed_def ErrTimeout_def Let_def


text \<open>
  C4.  The first write of \<open>Do(0, "get", "k")\<close> fails with a transient error; the dial
  of the retry succeeds and the peer would serve the request.  \<open>Do\<close> does not return: the
  retry re-enters \<open>Do\<close> and waits for the mutex that the outer call holds.
\<close>

theorem Do_retry_deadlock:
  "Do connected reset_then_ok 0 get_k =
     (Blocked, \<lparr>sock_open = True, conn = 1, recv_buf = [], mutex = True\<rparr>,
      silent\<lparr>writes := [None], reads := [Inr (''2'' @ [LF] @ ''ok'' @ [LF, LF])]\<rparr>)"
  by (simp add: Do_eval reset_then_ok_def)


text \<open>
  C3.  The request is written, the read fails with a transient error; \<open>Do\<close> reconnects
  (new connection, empty receive buffer) and then blocks on its own mutex: the request is
  written once and never sent again, though the peer would accept it.
\<close>

theorem Do_retry_never_resends:
  "Do connected read_fails_then_ok 0 get_k =
     (Blocked, \<lparr>sock_open = True, conn = 1, recv_buf = [], mutex = True\<rparr>,
      silent\<lparr>writes := [None], reads := [Inr (''2'' @ [LF] @ ''ok'' @ [LF, LF])], sent := [get_k_request]\<rparr>)"
  by (simp add: Do_eval read_fails_then_ok_def)








section \<open>A length line that is no non-negative integer\<close>

lemma encode_Set: "\<exists>req. encode [AString ''set'', AString key, AString val] = Inr req"
  using encode_supported [of "[AString ''set'', AString key, AString val]"] by simp

lemma Do_nil_response:
  assumes "\<not> mutex c" "sock_open c" "writes w = None # ws" "reads w = Inr tmp # rs"
    and "encode args = Inr req" and "parse (recv_buf c @ tmp) = Parsed None b"
  shows "Do c w r args =
     (Returned (None, None), c\<lparr>recv_buf := recv_buf c @ tmp\<rparr>,
      w\<lparr>writes := ws, reads := rs, sent := sent w @ [req]\<rparr>)"
proof -
  from parse_keeps [OF assms(6)] have b: "b = recv_buf c @ tmp" by simp
  let ?c1 = "c\<lparr>mutex := True\<rparr>" and ?w1 = "w\<lparr>writes := ws, sent := sent w @ [req]\<rparr>"
  have s: "send ?c1 w args = (None, ?c1, ?w1)"
    using assms by (simp add: send_def)
  have r: "recv ?c1 ?w1 = (Returned (None, None), ?c1\<lparr>recv_buf := recv_buf c @ tmp\<rparr>, ?w1\<lparr>reads := rs\<rparr>)"
    using assms b by (simp add: recv_def)
  have u: "?c1\<lparr>recv_buf := recv_buf c @ tmp, mutex := False\<rparr> = c\<lparr>recv_buf := recv_buf c @ tmp\<rparr>"
    using assms(1) by (cases c) simp
  have v: "?w1\<lparr>reads := rs\<rparr> = w\<lparr>writes := ws, reads := rs, sent := sent w @ [req]\<rparr>"
    by (cases w) simp
  show ?thesis
    by (simp add: Do_unfold [OF assms(1)] s r unlock_def u v)
qed

text \<open>
  C6, as amended.  When \<open>parse\<close> meets a length line that is not a non-negative decimal
  integer it returns \<open>nil\<close> and leaves the receive buffer as it is.  \<open>recv\<close> returns this
  \<open>nil\<close> response with a \<open>nil\<close> error; \<open>Do\<close> returns the same pair to its caller, on
  the same connection, with the buffer kept and without a retry; the typed operation
  \<open>Set\<close> turns it into \<open>ErrBadResponse\<close>.
\<close>

theorem Do_malformed_length:
  assumes "\<not> mutex c" and "sock_open c" and "writes w = None # ws" and "reads w = Inr tmp # rs"
    and "encode args = Inr req" and "parse (recv_buf c @ tmp) = Parsed None b"
  shows "b = recv_buf c @ tmp
    \<and> recv c w = (Returned (None, None), c\<lparr>recv_buf := recv_buf c @ tmp\<rparr>, w\<lparr>reads := rs\<rparr>)
    \<and> Do c w r args =
         (Returned (None, None), c\<lparr>recv_buf := recv_buf c @ tmp\<rparr>,
          w\<lparr>writes := ws, reads := rs, sent := sent w @ [req]\<rparr>)
    \<and> fst (Set c w key val) = Returned (False, Some ErrBadResponse)"
proof -
  from parse_keeps [OF assms(6)] have b: "b = recv_buf c @ tmp" by simp
  have r: "recv c w = (Returned (None, None), c\<lparr>recv_buf := recv_buf c @ tmp\<rparr>, w\<lparr>reads := rs\<rparr>)"
    using assms b by (simp add: recv_def)
  note d = Do_nil_response [OF assms]
  from encode_Set obtain sreq where "encode [AString ''set'', AString key, AString val] = Inr sreq"
    by blast
  from Do_nil_response [OF assms(1-4) this assms(6)]
  have "fst (Set c w key val) = Returned (False, Some ErrBadResponse)"
    by (simp add: Set_def decode_def ok_status_def items_def)
  with b r d show ?thesis by simp
qed

theorem Do_malformed_length_witness:
  "parse (''-1'' @ [LF]) = Parsed None (''-1'' @ [LF])
   \<and> Do connected (silent\<lparr>writes := [None], reads := [Inr (''-1'' @ [LF])]\<rparr>) 0 get_k
        = (Returned (None, None), connected\<lparr>recv_buf := ''-1'' @ [LF]\<rparr>, silent\<lparr>sent := [get_k_request]\<rparr>)
   \<and> fst (Set connected (silent\<lparr>writes := [None], reads := [Inr (''-1'' @ [LF])]\<rparr>) ''a'' ''1'')
        = Returned (False, Some ErrBadResponse)"
proof -
  let ?w = "silent\<lparr>writes := [None], reads := [Inr (''-1'' @ [LF])]\<rparr>"
  have p: "parse (recv_buf connected @ (''-1'' @ [LF])) = Parsed None (''-1'' @ [LF])"
    by (simp add: connected_def parse_eval)
  have h: "\<not> mutex connected" "sock_open connected" "writes ?w = None # []" "reads ?w = Inr (''-1'' @ [LF]) # []"
    by (simp_all add: connected_def)
  from Do_malformed_length [OF h encode_get_k p, of 0 "''a''" "''1''"] p show ?thesis
    by (simp add: connected_def silent_def)
qed

text \<open>
  C6 as stated fails: the peer answers \<open>get k\<close> with the line \<open>x\<close>.  \<open>Do\<close> returns a \<open>nil\<close>
  response with no error; the connection is neither closed nor replaced, the line stays
  in the buffer and the request is not sent again.
\<close>

theorem Do_malformed_length_counterexample:
  "Do connected (silent\<lparr>writes := [None], reads := [Inr (''x'' @ [LF])]\<rparr>) 0 get_k
     = (Returned (None, None), connected\<lparr>recv_buf := ''x'' @ [LF]\<rparr>, silent\<lparr>sent := [get_k_request]\<rparr>)"
  by (simp add: Do_eval parse_eval)


section \<open>Bulk operations of the shard router\<close>

lemma map_of_append_at:
  "map_of (append_at i x res) j =
     (if j = i then Some ((case map_of res i of Some ys \<Rightarrow> ys | None \<Rightarrow> []) @ [x]) else map_of res j)"
  by (induction res) auto

lemma part_of_append_at:
  "part_of (append_at i x res) j = (if j = i then part_of res i @ [x] else part_of res j)"
  by (simp add: part_of_def map_of_append_at)

lemma keys_append_at: "fst ` set (append_at i x res) = insert i (fst ` set res)"
proof -
  have "dom (map_of (append_at i x res)) = insert i (dom (map_of res))"
    by (auto simp: dom_def map_of_append_at)
  then show ?thesis
    by (simp only: dom_map_of_conv_image_fst)
qed

lemma distinct_append_at: "distinct (map fst res) \<Longrightarrow> distinct (map fst (append_at i x res))"
proof (induction res)
  case Nil
  then show ?case by simp
next
  case (Cons a res)
  obtain j ys where a: "a = (j, ys)" by (cases a)
  from Cons have d: "distinct (map fst (append_at i x res))" by simp
  from Cons.prems a have "j \<notin> fst ` set res" by simp
  then have "i \<noteq> j \<Longrightarrow> j \<notin> fst ` set (append_at i x res)"
    by (simp add: keys_append_at)
  with Cons.prems d a show ?case by auto
qed

lemma locate_loop_fold:
  assumes "length (shards c) mod 65536 \<noteq> 0"
  shows "locate_loop c key_of xs res = Returned (fold (\<lambda>x. append_at (loc c (key_of x)) x) xs res)"
proof (induction xs arbitrary: res)
  case Nil
  show ?case by simp
next
  case (Cons x xs)
  from locate_returned [OF assms, of "key_of x"] obtain pos where
    p: "locate c (key_of x) = Returned pos" by blast
  then have "loc c (key_of x) = unat pos" by (simp add: loc_def)
  with p Cons show ?case by simp
qed

lemma part_of_fold:
  "part_of (fold (\<lambda>x. append_at (f x) x) xs res) j = part_of res j @ filter (\<lambda>x. f x = j) xs"
  by (induction xs arbitrary: res) (simp_all add: part_of_append_at)

lemma keys_fold:
  "fst ` set (fold (\<lambda>x. append_at (f x) x) xs res) = fst ` set res \<union> f ` set xs"
  by (induction xs arbitrary: res) (auto simp: keys_append_at)

lemma distinct_fold:
  "distinct (map fst res) \<Longrightarrow> distinct (map fst (fold (\<lambda>x. append_at (f x) x) xs res))"
  by (induction xs arbitrary: res) (simp_all add: distinct_append_at)

lemma loc_less:
  assumes "length (shards c) mod 65536 \<noteq> 0"
  shows "loc c key < length (shards c)"
proof -
  from locate_returned [OF assms, of key] obtain pos where
    p: "locate c key = Returned pos" "unat pos = shardOf_spec key (length (shards c) mod 65536)" by blast
  from assms have "shardOf_spec key (length (shards c) mod 65536) < length (shards c) mod 65536"
    unfolding shardOf_spec_def by (intro mod_less_divisor) linarith
  moreover have "length (shards c) mod 65536 \<le> length (shards c)" by (rule mod_less_eq_dividend)
  ultimately show ?thesis using p by (simp add: loc_def)
qed

text \<open>What \<open>locateKeys\<close> and \<open>locatePairs\<close> build.\<close>

lemma locate_loop_parts:
  assumes "length (shards c) mod 65536 \<noteq> 0"
  shows "\<exists>parts. locate_loop c key_of xs [] = Returned parts
           \<and> distinct (map fst parts)
           \<and> set (map fst parts) = set (participating c key_of xs)
           \<and> (\<forall>idx. part_of parts idx = shard_part c key_of xs idx)
           \<and> (\<forall>(idx, part) \<in> set parts. part = shard_part c key_of xs idx)"
proof -
  let ?parts = "fold (\<lambda>x. append_at (loc c (key_of x)) x) xs []"
  have r: "locate_loop c key_of xs [] = Returned ?parts"
    by (rule locate_loop_fold [OF assms])
  have d: "distinct (map fst ?parts)"
    by (rule distinct_fold) simp
  have p: "part_of ?parts idx = shard_part c key_of xs idx" for idx
    using part_of_fold [of "\<lambda>x. loc c (key_of x)" xs "[]" idx]
    by (simp add: shard_part_def) (simp add: part_of_def)
  have k: "set (map fst ?parts) = set (participating c key_of xs)"
  proof -
    have "fst ` set ?parts = (\<lambda>x. loc c (key_of x)) ` set xs"
      using keys_fold [of "\<lambda>x. loc c (key_of x)" xs "[]"] by simp
    moreover have "set (participating c key_of xs) = (\<lambda>x. loc c (key_of x)) ` set xs"
      using loc_less [OF assms]
      by (auto simp: participating_def shard_part_def filter_empty_conv)
    ultimately show ?thesis by simp
  qed
  have e: "part = shard_part c key_of xs idx" if "(idx, part) \<in> set ?parts" for idx part
  proof -
    from that d have "map_of ?parts idx = Some part" by simp
    then have "part_of ?parts idx = part" by (simp add: part_of_def)
    with p show ?thesis by simp
  qed
  from r d k p e show ?thesis by blast
qed


lemma run_workers_runs:
  "fst (run_workers f c parts) = map (\<lambda>(idx, part). (idx, worker f c idx part)) parts"
  by (simp add: run_workers_def worker_def)

lemma map_of_runs:
  "map_of (map (\<lambda>(idx, part). (idx, g idx part)) parts) idx = map_option (g idx) (map_of parts idx)"
  by (induction parts) auto

lemma runs_lookup:
  assumes "distinct (map fst parts)" and "set (map fst parts) = set (participating c key_of xs)"
    and "\<forall>idx. part_of parts idx = shard_part c key_of xs idx"
    and "idx \<in> set (participating c key_of xs)"
  shows "map_of (fst (run_workers f c parts)) idx = Some (worker f c idx (shard_part c key_of xs idx))"
proof -
  from assms(2,4) have "idx \<in> fst ` set parts" by simp
  then obtain part where "map_of parts idx = Some part"
    by (metis domD dom_map_of_conv_image_fst)
  moreover from this assms(3) have "part = shard_part c key_of xs idx"
    by (metis part_of_def option.simps(5))
  ultimately show ?thesis
    by (simp add: run_workers_runs map_of_runs)
qed

lemma join_returns:
  assumes "set (map fst parts) = set (participating c key_of xs)"
    and "\<forall>(idx, part) \<in> set parts. part = shard_part c key_of xs idx"
    and "all_return f c key_of xs"
  shows "join (fst (run_workers f c parts)) res = Returned res"
proof -
  have "out \<noteq> Panicked \<and> out \<noteq> Blocked" if "out \<in> snd ` set (fst (run_workers f c parts))" for out
  proof -
    from that obtain idx part where m: "(idx, part) \<in> set parts" and o: "out = worker f c idx part"
      by (auto simp: run_workers_runs)
    from m assms(2) have p: "part = shard_part c key_of xs idx" by blast
    from m assms(1) have "idx \<in> set (participating c key_of xs)" by force
    with assms(3) o p show ?thesis by (simp add: all_return_def)
  qed
  then show ?thesis by (auto simp: join_def)
qed

lemma err_written_none:
  "fold (\<lambda>idx err. case map_of runs idx of Some (Returned (success, Some err2)) \<Rightarrow> Some err2 | _ \<Rightarrow> err) worder acc = None
     \<longleftrightarrow> acc = None \<and> (\<forall>idx \<in> set worder. \<forall>success err2. map_of runs idx \<noteq> Some (Returned (success, Some err2)))"
proof (induction worder arbitrary: acc)
  case Nil
  show ?case by simp
next
  case (Cons idx worder)
  show ?case
    by (simp add: Cons.IH) (auto split: option.splits outcome.splits prod.splits)
qed

lemma merge_participating:
  assumes "\<And>idx. shard_part c key_of xs idx = [] \<Longrightarrow> sub idx = []"
  shows "merge_in_shard_order c sub = concat (map sub (participating c key_of xs))"
proof -
  have "concat (map sub (filter P ys)) = concat (map sub ys)" if "\<And>y. \<not> P y \<Longrightarrow> sub y = []" for P and ys :: "nat list"
    using that by (induction ys) auto
  from this [of "\<lambda>idx. shard_part c key_of xs idx \<noteq> []" "[0..<length (shards c)]"] assms
  show ?thesis by (simp add: merge_in_shard_order_def participating_def)
qed


lemma ok_status_shape: "ok_status r = (True, None) \<or> (\<exists>err. ok_status r = (False, Some err))"
  by (auto simp: ok_status_def split: prod.splits option.splits)

lemma decode_Returned: "fst (decode f r) = Returned x \<Longrightarrow> \<exists>y. x = f y"
  by (cases r) (auto simp: decode_def split: outcome.splits)

lemma MultiDel_status: "reports_status MultiDel"
  unfolding reports_status_def MultiDel_def by (blast dest: decode_Returned)

lemma MultiSet_status: "reports_status MultiSet"
  unfolding reports_status_def MultiSet_def by (blast dest: decode_Returned)

lemma worker_shape:
  assumes "reports_status f"
    and "worker f c idx part \<noteq> Blocked" and "worker f c idx part \<noteq> Panicked"
  shows "worker f c idx part = Returned (True, None) \<or> (\<exists>err. worker f c idx part = Returned (False, Some err))"
proof -
  from assms(2,3) obtain x where x: "worker f c idx part = Returned x"
    by (cases "worker f c idx part") auto
  with assms(1) have "\<exists>y. x = ok_status y"
    unfolding worker_def reports_status_def by blast
  with x ok_status_shape show ?thesis by metis
qed

lemma bulk_keys:
  assumes total: "length (shards c) mod 65536 \<noteq> 0"
    and f: "reports_status f"
    and parts: "locate_loop c key_of xs [] = Returned parts"
    and arr: "set arrival = set (participating c key_of xs)"
    and wor: "set worder = set (participating c key_of xs)"
    and ret: "all_return f c key_of xs"
  shows "join (fst (run_workers f c parts))
           (concat (map (\<lambda>idx. if idx_msg (map_of (fst (run_workers f c parts)) idx) then g (part_of parts idx) else []) arrival),
            err_written (fst (run_workers f c parts)) worder)
         = Returned (concat (map (\<lambda>idx. if succeeded f c key_of xs idx then g (shard_part c key_of xs idx) else []) arrival),
                     err_written (fst (run_workers f c parts)) worder)
       \<and> (err_written (fst (run_workers f c parts)) worder = None
            \<longleftrightarrow> (\<forall>idx \<in> set (participating c key_of xs). succeeded f c key_of xs idx))"
proof -
  from locate_loop_parts [OF total, of key_of xs] parts have
    d: "distinct (map fst parts)" and
    k: "set (map fst parts) = set (participating c key_of xs)" and
    p: "\<forall>idx. part_of parts idx = shard_part c key_of xs idx" and
    e: "\<forall>(idx, part) \<in> set parts. part = shard_part c key_of xs idx"
    by auto
  let ?runs = "fst (run_workers f c parts)"
  have l: "map_of ?runs idx = Some (worker f c idx (shard_part c key_of xs idx))"
    if "idx \<in> set (participating c key_of xs)" for idx
    using runs_lookup [OF d k p that] .
  have m: "idx_msg (map_of ?runs idx) = succeeded f c key_of xs idx"
    if "idx \<in> set (participating c key_of xs)" for idx
    by (auto simp: l [OF that] idx_msg_def succeeded_def split: outcome.splits option.splits)
  have "map (\<lambda>idx. if idx_msg (map_of ?runs idx) then g (part_of parts idx) else []) arrival
      = map (\<lambda>idx. if succeeded f c key_of xs idx then g (shard_part c key_of xs idx) else []) arrival"
    using arr m p by (intro map_cong) auto
  then have a: "join ?runs
           (concat (map (\<lambda>idx. if idx_msg (map_of ?runs idx) then g (part_of parts idx) else []) arrival),
            err_written ?runs worder)
         = Returned (concat (map (\<lambda>idx. if succeeded f c key_of xs idx then g (shard_part c key_of xs idx) else []) arrival),
                     err_written ?runs worder)"
    by (simp only: join_returns [OF k e ret])
  have b: "err_written ?runs worder = None \<longleftrightarrow> (\<forall>idx \<in> set (participating c key_of xs). succeeded f c key_of xs idx)"
  proof -
    have "(\<forall>success err2. map_of ?runs idx \<noteq> Some (Returned (success, Some err2))) \<longleftrightarrow> succeeded f c key_of xs idx"
      if i: "idx \<in> set (participating c key_of xs)" for idx
    proof -
      from ret i have "worker f c idx (shard_part c key_of xs idx) \<noteq> Blocked"
        "worker f c idx (shard_part c key_of xs idx) \<noteq> Panicked"
        by (simp_all add: all_return_def)
      from worker_shape [OF f this] show ?thesis
        by (auto simp: l [OF i] succeeded_def)
    qed
    then show ?thesis
      unfolding err_written_def err_written_none using wor by simp
  qed
  from a b show ?thesis by simp
qed

lemma Cluster_MultiDel_merge:
  assumes "length (shards c) mod 65536 \<noteq> 0" and "ks \<noteq> []"
    and "set arrival = set (participating c (\<lambda>key. key) ks)"
    and "set worder = set (participating c (\<lambda>key. key) ks)"
    and "all_return MultiDel c (\<lambda>key. key) ks"
  shows "\<exists>err. fst (Cluster_MultiDel c arrival worder ks) =
            Returned (concat (map (del_result c ks) arrival), err)
          \<and> (err = None \<longleftrightarrow> (\<forall>idx \<in> set (participating c (\<lambda>key. key) ks). succeeded MultiDel c (\<lambda>key. key) ks idx))"
proof -
  from locate_loop_parts [OF assms(1), of "\<lambda>key. key" ks] obtain parts where
    parts: "locate_loop c (\<lambda>key. key) ks [] = Returned parts" by blast
  obtain runs c' where rw: "run_workers MultiDel c parts = (runs, c')"
    by (cases "run_workers MultiDel c parts")
  then have runs: "fst (run_workers MultiDel c parts) = runs" by simp
  from bulk_keys [OF assms(1) MultiDel_status parts assms(3,4,5), of "\<lambda>part. part"]
  show ?thesis
    unfolding runs del_result_def [abs_def] using assms(2) parts rw
    by (simp add: Cluster_MultiDel_def locateKeys_def)
qed

lemma Cluster_MultiSet_merge:
  assumes "length (shards c) mod 65536 \<noteq> 0" and "ps \<noteq> []"
    and "set arrival = set (participating c pair_k ps)"
    and "set worder = set (participating c pair_k ps)"
    and "all_return MultiSet c pair_k ps"
  shows "\<exists>err. fst (Cluster_MultiSet c arrival worder ps) =
            Returned (concat (map (set_result c ps) arrival), err)
          \<and> (err = None \<longleftrightarrow> (\<forall>idx \<in> set (participating c pair_k ps). succeeded MultiSet c pair_k ps idx))"
proof -
  from locate_loop_parts [OF assms(1), of pair_k ps] obtain parts where
    parts: "locate_loop c pair_k ps [] = Returned parts" by blast
  obtain runs c' where rw: "run_workers MultiSet c parts = (runs, c')"
    by (cases "run_workers MultiSet c parts")
  then have runs: "fst (run_workers MultiSet c parts) = runs" by simp
  from bulk_keys [OF assms(1) MultiSet_status parts assms(3,4,5), of "map pair_k"]
  show ?thesis
    unfolding runs set_result_def [abs_def] using assms(2) parts rw
    by (simp add: Cluster_MultiSet_def locatePairs_def)
qed

lemma Cluster_MultiGet_merge:
  assumes "length (shards c) mod 65536 \<noteq> 0" and "ks \<noteq> []"
    and "set arrival = set (participating c (\<lambda>key. key) ks)"
    and "all_return MultiGet c (\<lambda>key. key) ks"
  shows "fst (Cluster_MultiGet c arrival ks) = Returned (concat (map (get_result c ks) arrival))"
proof -
  from locate_loop_parts [OF assms(1), of "\<lambda>key. key" ks] obtain parts where
    parts: "locate_loop c (\<lambda>key. key) ks [] = Returned parts" and
    d: "distinct (map fst parts)" and
    k: "set (map fst parts) = set (participating c (\<lambda>key. key) ks)" and
    p: "\<forall>idx. part_of parts idx = shard_part c (\<lambda>key. key) ks idx" and
    e: "\<forall>(idx, part) \<in> set parts. part = shard_part c (\<lambda>key. key) ks idx"
    by blast
  let ?runs = "fst (run_workers MultiGet c parts)"
  have "pairs_msg (map_of ?runs idx) = get_result c ks idx" if "idx \<in> set (participating c (\<lambda>key. key) ks)" for idx
  proof -
    from that have "shard_part c (\<lambda>key. key) ks idx \<noteq> []" by (simp add: participating_def)
    then show ?thesis
      by (simp add: runs_lookup [OF d k p that] pairs_msg_def get_result_def)
  qed
  then have "map (\<lambda>idx. pairs_msg (map_of ?runs idx)) arrival = map (get_result c ks) arrival"
    using assms(3) by (intro map_cong) auto
  then have j: "join ?runs (concat (map (\<lambda>idx. pairs_msg (map_of ?runs idx)) arrival))
      = Returned (concat (map (get_result c ks) arrival))"
    by (simp only: join_returns [OF k e assms(4)])
  obtain runs c' where rw: "run_workers MultiGet c parts = (runs, c')"
    by (cases "run_workers MultiGet c parts")
  then have runs: "fst (run_workers MultiGet c parts) = runs" by simp
  from j show ?thesis
    unfolding runs using assms(2) parts rw
    by (simp add: Cluster_MultiGet_def locateKeys_def)
qed


text \<open>
  C2, as amended.  For every bulk operation that returns (\<open>MultiGet\<close>, \<open>MultiSet\<close>,
  \<open>MultiDel\<close>) and every order of arrival of the workers' messages, the merged result is
  the concatenation of the sub-results of the participating shards in the order of
  arrival; the concatenation in shard-index order is the same concatenation taken over
  the participating shards in ascending order.  \<open>MultiSet\<close> and \<open>MultiDel\<close> return no
  error exactly when the sub-request of every participating shard succeeded.
\<close>

theorem bulk_merge_in_arrival_order:
  assumes "length (shards c) mod 65536 \<noteq> 0"
  shows "(ks \<noteq> [] \<and> distinct arrival \<and> set arrival = set (participating c (\<lambda>key. key) ks)
            \<and> all_return MultiGet c (\<lambda>key. key) ks \<longrightarrow>
          fst (Cluster_MultiGet c arrival ks) = Returned (concat (map (get_result c ks) arrival))
          \<and> merge_in_shard_order c (get_result c ks)
               = concat (map (get_result c ks) (participating c (\<lambda>key. key) ks)))
    \<and> (ps \<noteq> [] \<and> distinct arrival \<and> set arrival = set (participating c pair_k ps)
            \<and> set worder = set (participating c pair_k ps) \<and> all_return MultiSet c pair_k ps \<longrightarrow>
          (\<exists>err. fst (Cluster_MultiSet c arrival worder ps) = Returned (concat (map (set_result c ps) arrival), err)
             \<and> (err = None \<longleftrightarrow> (\<forall>idx \<in> set (participating c pair_k ps). succeeded MultiSet c pair_k ps idx)))
          \<and> merge_in_shard_order c (set_result c ps)
               = concat (map (set_result c ps) (participating c pair_k ps)))
    \<and> (ks \<noteq> [] \<and> distinct arrival \<and> set arrival = set (participating c (\<lambda>key. key) ks)
            \<and> set worder = set (participating c (\<lambda>key. key) ks) \<and> all_return MultiDel c (\<lambda>key. key) ks \<longrightarrow>
          (\<exists>err. fst (Cluster_MultiDel c arrival worder ks) = Returned (concat (map (del_result c ks) arrival), err)
             \<and> (err = None \<longleftrightarrow> (\<forall>idx \<in> set (participating c (\<lambda>key. key) ks). succeeded MultiDel c (\<lambda>key. key) ks idx)))
          \<and> merge_in_shard_order c (del_result c ks)
               = concat (map (del_result c ks) (participating c (\<lambda>key. key) ks)))"
proof -
  have g: "merge_in_shard_order c (get_result c ks)
               = concat (map (get_result c ks) (participating c (\<lambda>key. key) ks))"
    by (rule merge_participating) (simp add: get_result_def)
  have s: "merge_in_shard_order c (set_result c ps)
               = concat (map (set_result c ps) (participating c pair_k ps))"
    by (rule merge_participating) (simp add: set_result_def)
  have d: "merge_in_shard_order c (del_result c ks)
               = concat (map (del_result c ks) (participating c (\<lambda>key. key) ks))"
    by (rule merge_participating) (simp add: del_result_def)
  from g s d Cluster_MultiGet_merge [OF assms, of ks arrival]
    Cluster_MultiSet_merge [OF assms, of ps arrival worder]
    Cluster_MultiDel_merge [OF assms, of ks arrival worder]
  show ?thesis by blast
qed


text \<open>The digests of the keys \<open>a\<close> and \<open>b\<close>: on two shards, \<open>a\<close> belongs to shard 0 and \<open>b\<close> to shard 1.\<close>

lemma funpow_20: "(f ^^ 20) x = f (f (f (f (f (f (f (f (f (f (f (f (f (f (f (f (f (f (f (f x)))))))))))))))))))"
  by (simp add: eval_nat_numeral)

lemma replicate_num: "replicate (numeral n) x = x # replicate (pred_numeral n) x"
  by (simp add: numeral_eq_Suc)

lemmas sha1_eval = replicate_num sha1_def sha1_pad_def len_bytes_def sha1_blocks.simps sha1_block_def funpow_20
  rotl_def Ch_def Parity_def Maj_def word_bytes_def

lemma sha1_a: "sha1 (map of_char ''a'') =
  [0x86, 0xf7, 0xe4, 0x37, 0xfa, 0xa5, 0xa7, 0xfc, 0xe1, 0x5d, 0x1d, 0xdc, 0xb9, 0xea, 0xea, 0xea, 0x37, 0x76, 0x67, 0xb8]"
  by (simp add: sha1_eval)

lemma sha1_b: "sha1 (map of_char ''b'') =
  [0xe9, 0xd7, 0x1f, 0x5e, 0xe7, 0xc9, 0x2d, 0x6d, 0xc9, 0xe9, 0x2f, 0xfd, 0xad, 0x17, 0xb8, 0xbd, 0x49, 0x41, 0x8f, 0x98]"
  by (simp add: sha1_eval)

lemma Sum_a: "Sum (write_all [] ''a'') =
  [0x86, 0xf7, 0xe4, 0x37, 0xfa, 0xa5, 0xa7, 0xfc, 0xe1, 0x5d, 0x1d, 0xdc, 0xb9, 0xea, 0xea, 0xea, 0x37, 0x76, 0x67, 0xb8]"
  by (simp only: Sum_def write_all_eq append_Nil sha1_a)

lemma Sum_b: "Sum (write_all [] ''b'') =
  [0xe9, 0xd7, 0x1f, 0x5e, 0xe7, 0xc9, 0x2d, 0x6d, 0xc9, 0xe9, 0x2f, 0xfd, 0xad, 0x17, 0xb8, 0xbd, 0x49, 0x41, 0x8f, 0x98]"
  by (simp only: Sum_def write_all_eq append_Nil sha1_b)

lemma locate_a: "length (shards c) = 2 \<Longrightarrow> locate c ''a'' = Returned 0"
  by (simp add: locate_def Let_def Sum_a)

lemma locate_b: "length (shards c) = 2 \<Longrightarrow> locate c ''b'' = Returned 1"
  by (simp add: locate_def Let_def Sum_b)


lemma loc_a: "length (shards c) = 2 \<Longrightarrow> loc c ''a'' = 0"
  by (simp add: loc_def locate_a)

lemma loc_b: "length (shards c) = 2 \<Longrightarrow> loc c ''b'' = 1"
  by (simp add: loc_def locate_b)

lemmas frame_eval = answers_def frame_def Itoa_def nat_dec_small digit_char_def

lemmas client_eval = Do_unfold send_def recv_def unlock_def MAX_RETRIES_def connected_def silent_def
  encode_def write_block_def decode_def ok_status_def MultiGet_status_def items_def

lemma ex_MultiDel: "fst (MultiDel connected (answers [''ok'', ''1'']) [key]) = Returned (True, None)"
  if "length key < 10" for key
  using that by (simp add: MultiDel_def client_eval frame_eval parse_eval)

lemma ex_MultiGet_ok: "fst (MultiGet connected (answers [''ok'', ''a'', ''1'']) [''a''])
    = Returned ([\<lparr>pair_k = ''a'', pair_v = AString ''1''\<rparr>], None)"
  by (simp add: MultiGet_def client_eval frame_eval parse_eval)

lemma ex_MultiGet_error: "fst (MultiGet connected (answers [''error'']) [''b'']) = Returned ([], Some ErrBadResponse)"
  by (simp add: MultiGet_def client_eval frame_eval parse_eval)

lemma ex_MultiGet_not_found: "fst (MultiGet connected (answers [''not_found'']) [''b'']) = Returned ([], None)"
  by (simp add: MultiGet_def client_eval frame_eval parse_eval)


lemma ex_MultiSet: "fst (MultiSet connected (answers [''ok'', ''1'']) [\<lparr>pair_k = key, pair_v = AString val\<rparr>]) = Returned (True, None)"
  if "length key < 10" "length val < 10" for key val
  using that by (simp add: MultiSet_def client_eval frame_eval parse_eval)

lemmas cluster_eval = two_shards_def locateKeys_def locatePairs_def locate_a locate_b run_workers_def join_def
  idx_msg_def pairs_msg_def part_of_def err_written_def

lemmas spec_eval = two_shards_def merge_in_shard_order_def participating_def shard_part_def loc_a loc_b
  del_result_def set_result_def get_result_def succeeded_def worker_def all_return_def

theorem bulk_merge_in_arrival_order_witness:
  "fst (Cluster_MultiGet second_fails [1, 0] [''a'', ''b'']) = Returned [\<lparr>pair_k = ''a'', pair_v = AString ''1''\<rparr>]
   \<and> fst (Cluster_MultiSet both_ok [1, 0] [0, 1]
            [\<lparr>pair_k = ''a'', pair_v = AString ''1''\<rparr>, \<lparr>pair_k = ''b'', pair_v = AString ''2''\<rparr>])
        = Returned ([''b'', ''a''], None)
   \<and> fst (Cluster_MultiDel both_ok [1, 0] [0, 1] [''a'', ''b'']) = Returned ([''b'', ''a''], None)"
proof -
  let ?ks = "[''a'', ''b'']"
  let ?ps = "[\<lparr>pair_k = ''a'', pair_v = AString ''1''\<rparr>, \<lparr>pair_k = ''b'', pair_v = AString ''2''\<rparr>]"
  have n: "length (shards both_ok) mod 65536 \<noteq> 0" "length (shards second_fails) mod 65536 \<noteq> 0"
    by (simp_all add: both_ok_def second_fails_def two_shards_def)
  have pk: "participating both_ok (\<lambda>key. key) ?ks = [0, 1]"
    by (simp add: both_ok_def two_shards_def participating_def shard_part_def loc_a loc_b upt_rec)
  have pp: "participating both_ok pair_k ?ps = [0, 1]"
    by (simp add: both_ok_def two_shards_def participating_def shard_part_def loc_a loc_b upt_rec)
  have pg: "participating second_fails (\<lambda>key. key) ?ks = [0, 1]"
    by (simp add: second_fails_def two_shards_def participating_def shard_part_def loc_a loc_b upt_rec)
  have sk: "shard_part both_ok (\<lambda>key. key) ?ks 0 = [''a'']" "shard_part both_ok (\<lambda>key. key) ?ks (Suc 0) = [''b'']"
    by (simp_all add: both_ok_def two_shards_def shard_part_def loc_a loc_b)
  have sp: "shard_part both_ok pair_k ?ps 0 = [\<lparr>pair_k = ''a'', pair_v = AString ''1''\<rparr>]"
    "shard_part both_ok pair_k ?ps (Suc 0) = [\<lparr>pair_k = ''b'', pair_v = AString ''2''\<rparr>]"
    by (simp_all add: both_ok_def two_shards_def shard_part_def loc_a loc_b)
  have sg: "shard_part second_fails (\<lambda>key. key) ?ks 0 = [''a'']" "shard_part second_fails (\<lambda>key. key) ?ks (Suc 0) = [''b'']"
    by (simp_all add: second_fails_def two_shards_def shard_part_def loc_a loc_b)
  have wk: "worker MultiDel both_ok 0 [''a''] = Returned (True, None)"
    "worker MultiDel both_ok (Suc 0) [''b''] = Returned (True, None)"
    by (simp_all add: worker_def both_ok_def two_shards_def ex_MultiDel)
  have wp: "worker MultiSet both_ok 0 [\<lparr>pair_k = ''a'', pair_v = AString ''1''\<rparr>] = Returned (True, None)"
    "worker MultiSet both_ok (Suc 0) [\<lparr>pair_k = ''b'', pair_v = AString ''2''\<rparr>] = Returned (True, None)"
    by (simp_all add: worker_def both_ok_def two_shards_def ex_MultiSet)
  have wg: "worker MultiGet second_fails 0 [''a''] = Returned ([\<lparr>pair_k = ''a'', pair_v = AString ''1''\<rparr>], None)"
    "worker MultiGet second_fails (Suc 0) [''b''] = Returned ([], Some ErrBadResponse)"
    by (simp_all add: worker_def second_fails_def two_shards_def ex_MultiGet_ok ex_MultiGet_error)
  have hg: "?ks \<noteq> [] \<and> distinct [1, 0 :: nat] \<and> set [1, 0] = set (participating second_fails (\<lambda>key. key) ?ks)
      \<and> all_return MultiGet second_fails (\<lambda>key. key) ?ks"
    by (auto simp: pg all_return_def sg wg)
  have hp: "?ps \<noteq> [] \<and> distinct [1, 0 :: nat] \<and> set [1, 0] = set (participating both_ok pair_k ?ps)
      \<and> set [0, 1] = set (participating both_ok pair_k ?ps) \<and> all_return MultiSet both_ok pair_k ?ps"
    by (auto simp: pp all_return_def sp wp)
  have hk: "?ks \<noteq> [] \<and> distinct [1, 0 :: nat] \<and> set [1, 0] = set (participating both_ok (\<lambda>key. key) ?ks)
      \<and> set [0, 1] = set (participating both_ok (\<lambda>key. key) ?ks) \<and> all_return MultiDel both_ok (\<lambda>key. key) ?ks"
    by (auto simp: pk all_return_def sk wk)
  from bulk_merge_in_arrival_order [OF n(2), where ks = ?ks and arrival = "[1, 0]"] hg
  have g: "fst (Cluster_MultiGet second_fails [1, 0] ?ks) = Returned (concat (map (get_result second_fails ?ks) [1, 0]))"
    by blast
  from bulk_merge_in_arrival_order [OF n(1), where ps = ?ps and arrival = "[1, 0]" and worder = "[0, 1]"] hp
  obtain errp where
    p: "fst (Cluster_MultiSet both_ok [1, 0] [0, 1] ?ps) = Returned (concat (map (set_result both_ok ?ps) [1, 0]), errp)"
    and ep: "errp = None \<longleftrightarrow> (\<forall>idx \<in> set (participating both_ok pair_k ?ps). succeeded MultiSet both_ok pair_k ?ps idx)"
    by blast
  from bulk_merge_in_arrival_order [OF n(1), where ks = ?ks and arrival = "[1, 0]" and worder = "[0, 1]"] hk
  obtain errk where
    k: "fst (Cluster_MultiDel both_ok [1, 0] [0, 1] ?ks) = Returned (concat (map (del_result both_ok ?ks) [1, 0]), errk)"
    and ek: "errk = None \<longleftrightarrow> (\<forall>idx \<in> set (participating both_ok (\<lambda>key. key) ?ks). succeeded MultiDel both_ok (\<lambda>key. key) ?ks idx)"
    by blast
  from ep have "errp = None" by (simp add: pp succeeded_def sp wp)
  moreover from ek have "errk = None" by (simp add: pk succeeded_def sk wk)
  ultimately show ?thesis
    using g p k
    by (simp add: get_result_def set_result_def del_result_def succeeded_def sg sp sk wg wp wk)
qed


text \<open>
  C2 as stated fails.  Both shards succeed and the message of shard 1 arrives first: the
  merged result of \<open>MultiDel\<close> is \<open>b, a\<close>, the concatenation in shard-index order is
  \<open>a, b\<close>.  And when the sub-request of shard 1 fails, \<open>MultiGet\<close> returns the same
  pairs as when shard 1 succeeds and holds none of the keys.
\<close>

theorem bulk_merge_counterexample:
  "fst (Cluster_MultiDel both_ok [1, 0] [1, 0] [''a'', ''b'']) = Returned ([''b'', ''a''], None)
   \<and> merge_in_shard_order both_ok (del_result both_ok [''a'', ''b'']) = [''a'', ''b'']
   \<and> worker MultiGet second_fails 1 [''b''] = Returned ([], Some ErrBadResponse)
   \<and> fst (Cluster_MultiGet second_fails [0, 1] [''a'', ''b'']) = Returned [\<lparr>pair_k = ''a'', pair_v = AString ''1''\<rparr>]
   \<and> fst (Cluster_MultiGet second_misses [0, 1] [''a'', ''b'']) = Returned [\<lparr>pair_k = ''a'', pair_v = AString ''1''\<rparr>]"
proof -
  have a: "fst (Cluster_MultiDel both_ok [1, 0] [1, 0] [''a'', ''b'']) = Returned ([''b'', ''a''], None)"
    by (simp add: Cluster_MultiDel_def both_ok_def cluster_eval ex_MultiDel)
  have b: "merge_in_shard_order both_ok (del_result both_ok [''a'', ''b'']) = [''a'', ''b'']"
    by (simp add: both_ok_def spec_eval ex_MultiDel upt_rec)
  have c: "worker MultiGet second_fails 1 [''b''] = Returned ([], Some ErrBadResponse)"
    by (simp add: second_fails_def worker_def two_shards_def ex_MultiGet_error)
  have d: "fst (Cluster_MultiGet second_fails [0, 1] [''a'', ''b'']) = Returned [\<lparr>pair_k = ''a'', pair_v = AString ''1''\<rparr>]"
    by (simp add: Cluster_MultiGet_def second_fails_def cluster_eval ex_MultiGet_ok ex_MultiGet_error)
  have e: "fst (Cluster_MultiGet second_misses [0, 1] [''a'', ''b'']) = Returned [\<lparr>pair_k = ''a'', pair_v = AString ''1''\<rparr>]"
    by (simp add: Cluster_MultiGet_def second_misses_def cluster_eval ex_MultiGet_ok ex_MultiGet_not_found)
  from a b c d e show ?thesis by simp
qed

end
